theory Spec2Isabelle
  imports Complex_Main
begin

section \<open>JavaScript strings\<close>

text \<open>
  A JavaScript string is modelled as a \<^typ>\<open>string\<close>, one \<^typ>\<open>char\<close> per code unit;
  listings, keys and versions are taken to stay within the 8-bit range.
  \<open>startsWith\<close>, \<open>endsWith\<close> and \<open>includes_str\<close> are the String.prototype methods
  \<open>startsWith\<close>, \<open>endsWith\<close> and \<open>includes\<close>; \<open>split_on\<close> is \<open>s.split(d)\<close> for a
  one-character separator and \<open>join\<close> is \<open>Array.prototype.join\<close>.
\<close>

definition startsWith :: "string \<Rightarrow> string \<Rightarrow> bool" where
  "startsWith s t = (take (length t) s = t)"

definition endsWith :: "string \<Rightarrow> string \<Rightarrow> bool" where
  "endsWith s t = (length t \<le> length s \<and> drop (length s - length t) s = t)"

fun includes_str :: "string \<Rightarrow> string \<Rightarrow> bool" where
  "includes_str [] t = (t = [])"
| "includes_str (c # s) t = (startsWith (c # s) t \<or> includes_str s t)"

fun split_on :: "char \<Rightarrow> string \<Rightarrow> string list" where
  "split_on d [] = [[]]"
| "split_on d (c # s) =
     (if c = d then [] # split_on d s
      else (case split_on d s of [] \<Rightarrow> [[c]] | p # ps \<Rightarrow> (c # p) # ps))"

fun join :: "string \<Rightarrow> string list \<Rightarrow> string" where
  "join sep [] = []"
| "join sep [x] = x"
| "join sep (x # y # ys) = x @ sep @ join sep (y # ys)"

text \<open>
  Truthiness of a \<open>string | null\<close> value: \<open>null\<close> and the empty string are falsy.
\<close>

definition truthy :: "string option \<Rightarrow> bool" where
  "truthy x = (case x of None \<Rightarrow> False | Some s \<Rightarrow> s \<noteq> [])"

section \<open>Number conversion\<close>

text \<open>
  The values a version component can take. A JavaScript number is a double: \<open>NaN\<close>,
  one of the two infinities, or a finite value, which is a rational. The two zeros
  compare equal and are both falsy, so they are one value here. \<open>jsval\<close> carries the
  order of the relational operators \<open><\<close> and \<open>>\<close> on numbers other than \<open>NaN\<close>.
\<close>

datatype jsval = NegInfinity | Finite rat | PosInfinity

datatype jsnum = NaN | Val jsval

instantiation jsval :: linorder
begin

fun less_eq_jsval :: "jsval \<Rightarrow> jsval \<Rightarrow> bool" where
  "less_eq_jsval NegInfinity y = True"
| "less_eq_jsval (Finite x) NegInfinity = False"
| "less_eq_jsval (Finite x) (Finite y) = (x \<le> y)"
| "less_eq_jsval (Finite x) PosInfinity = True"
| "less_eq_jsval PosInfinity NegInfinity = False"
| "less_eq_jsval PosInfinity (Finite y) = False"
| "less_eq_jsval PosInfinity PosInfinity = True"

definition less_jsval :: "jsval \<Rightarrow> jsval \<Rightarrow> bool" where
  "less_jsval x y = (x \<le> y \<and> \<not> y \<le> x)"

instance
proof
  fix x y z :: jsval
  show "(x < y) = (x \<le> y \<and> \<not> y \<le> x)" by (simp add: less_jsval_def)
  show "x \<le> x" by (cases x) auto
  show "x \<le> y \<Longrightarrow> y \<le> z \<Longrightarrow> x \<le> z" by (cases x; cases y; cases z) auto
  show "x \<le> y \<Longrightarrow> y \<le> x \<Longrightarrow> x = y" by (cases x; cases y) auto
  show "x \<le> y \<or> y \<le> x" by (cases x; cases y) auto
qed

end

definition negate :: "jsval \<Rightarrow> jsval" where
  "negate v = (case v of NegInfinity \<Rightarrow> PosInfinity | Finite x \<Rightarrow> Finite (- x)
               | PosInfinity \<Rightarrow> NegInfinity)"

text \<open>
  The Number value for a non-negative rational \<open>q\<close>: the double nearest to it, the one
  with the even significand when two are equally near, and \<open>Infinity\<close> from \<open>2^1024\<close>
  on. \<open>binade q\<close> is the \<open>e\<close> with \<open>2^e \<le> q < 2^(e+1)\<close>; the doubles of that range, and
  the subnormal ones below \<open>2^-1022\<close>, are the multiples of \<open>2^p\<close> for the \<open>p\<close> of
  \<open>to_double\<close>.
\<close>

definition pow2 :: "int \<Rightarrow> rat" where
  "pow2 k = (if 0 \<le> k then 2 ^ nat k else 1 / 2 ^ nat (- k))"

definition pow10 :: "int \<Rightarrow> rat" where
  "pow10 k = (if 0 \<le> k then 10 ^ nat k else 1 / 10 ^ nat (- k))"

function halvings :: "rat \<Rightarrow> nat" where
  "halvings q = (if q < 2 then 0 else Suc (halvings (q / 2)))"
  by pat_completeness auto
termination
proof (relation "measure (\<lambda>q. nat \<lfloor>q\<rfloor>)")
  fix q :: rat
  assume "\<not> q < 2"
  then have q: "2 \<le> q" by simp
  have "q / 2 < of_int \<lfloor>q\<rfloor>"
    using q floor_correct [of q] by linarith
  then have "\<lfloor>q / 2\<rfloor> < \<lfloor>q\<rfloor>" by (simp add: floor_less_iff)
  moreover have "0 < \<lfloor>q\<rfloor>" using q by (simp add: less_floor_iff)
  ultimately show "(q / 2, q) \<in> measure (\<lambda>q. nat \<lfloor>q\<rfloor>)" by simp
qed simp

declare halvings.simps [simp del]

definition binade :: "rat \<Rightarrow> int" where
  "binade q =
     (if 1 \<le> q then int (halvings q)
      else (let u = int (halvings (1 / q))
            in if pow2 u * q = 1 then - u else - u - 1))"

definition round_half_even :: "rat \<Rightarrow> int" where
  "round_half_even x =
     (let f = \<lfloor>x\<rfloor>; d = x - of_int f
      in if d < 1 / 2 then f
         else if 1 / 2 < d then f + 1
         else if even f then f else f + 1)"

definition to_double :: "rat \<Rightarrow> jsval" where
  "to_double q =
     (if q \<le> 0 then Finite 0
      else (let p = max (binade q) (- 1022) - 52;
                r = of_int (round_half_even (q / pow2 p)) * pow2 p
            in if pow2 1024 \<le> r then PosInfinity else Finite r))"

text \<open>Decimal digits and their value, and the digits of the other radixes.\<close>

definition is_digit :: "char \<Rightarrow> bool" where
  "is_digit c = (48 \<le> (of_char c :: nat) \<and> (of_char c :: nat) \<le> 57)"

definition digit_val :: "char \<Rightarrow> nat" where
  "digit_val c = of_char c - 48"

definition dec_value :: "string \<Rightarrow> nat" where
  "dec_value s = foldl (\<lambda>n c. 10 * n + digit_val c) 0 s"

definition hex_val :: "char \<Rightarrow> nat option" where
  "hex_val c =
     (let n = of_char c :: nat
      in if 48 \<le> n \<and> n \<le> 57 then Some (n - 48)
         else if 97 \<le> n \<and> n \<le> 102 then Some (n - 87)
         else if 65 \<le> n \<and> n \<le> 70 then Some (n - 55)
         else None)"

fun radix_digits :: "nat \<Rightarrow> nat \<Rightarrow> string \<Rightarrow> nat option" where
  "radix_digits b acc [] = Some acc"
| "radix_digits b acc (c # s) =
     (case hex_val c of
        None \<Rightarrow> None
      | Some d \<Rightarrow> if d < b then radix_digits b (b * acc + d) s else None)"

definition radix_value :: "nat \<Rightarrow> string \<Rightarrow> nat option" where
  "radix_value b s = (if s = [] then None else radix_digits b 0 s)"

text \<open>
  \<open>Number(s)\<close> for a string without a dot, which is all that \<open>split('.')\<close> yields; it
  follows the grammar of a string numeric literal. White space and line terminators
  (of the 8-bit range: TAB, LF, VT, FF, CR, SP, NBSP) are trimmed from both ends and
  nothing left is 0. What is left is \<open>0b\<close>, \<open>0o\<close> or \<open>0x\<close> (in either case) followed by
  digits of that radix, without a sign; or, behind an optional sign, \<open>Infinity\<close> or a
  run of decimal digits with an optional exponent part. Anything else is \<open>NaN\<close>. The
  mathematical value is rounded to a double by \<open>to_double\<close>, also for literals of more
  than 20 significant digits, as the engines do.
\<close>

definition is_space :: "char \<Rightarrow> bool" where
  "is_space c = ((of_char c :: nat) \<in> {9, 10, 11, 12, 13, 32, 160})"

definition trim :: "string \<Rightarrow> string" where
  "trim s = rev (dropWhile is_space (rev (dropWhile is_space s)))"

definition non_decimal :: "string \<Rightarrow> nat option" where
  "non_decimal s =
     (case s of
        z # x # r \<Rightarrow>
          if z \<noteq> CHR ''0'' then None
          else if x = CHR ''b'' \<or> x = CHR ''B'' then radix_value 2 r
          else if x = CHR ''o'' \<or> x = CHR ''O'' then radix_value 8 r
          else if x = CHR ''x'' \<or> x = CHR ''X'' then radix_value 16 r
          else None
      | _ \<Rightarrow> None)"

definition digits_int :: "string \<Rightarrow> int option" where
  "digits_int r = (if r \<noteq> [] \<and> list_all is_digit r then Some (int (dec_value r)) else None)"

definition signed_int :: "string \<Rightarrow> int option" where
  "signed_int x =
     (case x of
        [] \<Rightarrow> None
      | c # r \<Rightarrow>
          if c = CHR ''+'' then digits_int r
          else if c = CHR ''-'' then map_option uminus (digits_int r)
          else digits_int x)"

definition unsigned_decimal :: "string \<Rightarrow> jsnum" where
  "unsigned_decimal u =
     (if u = ''Infinity'' then Val PosInfinity
      else (let ds = takeWhile is_digit u; rest = dropWhile is_digit u
            in if ds = [] then NaN
               else (case rest of
                       [] \<Rightarrow> Val (to_double (of_nat (dec_value ds)))
                     | e # x \<Rightarrow>
                         if e = CHR ''e'' \<or> e = CHR ''E'' then
                           (case signed_int x of
                              None \<Rightarrow> NaN
                            | Some k \<Rightarrow>
                                Val (to_double (of_nat (dec_value ds) * pow10 k)))
                         else NaN)))"

definition Number_js :: "string \<Rightarrow> jsnum" where
  "Number_js s0 =
     (let s = trim s0
      in if s = [] then Val (Finite 0)
         else (case non_decimal s of
                 Some n \<Rightarrow> Val (to_double (of_nat n))
               | None \<Rightarrow>
                   (case s of
                      [] \<Rightarrow> NaN
                    | c # r \<Rightarrow>
                        if c = CHR ''+'' then unsigned_decimal r
                        else if c = CHR ''-'' then
                          (case unsigned_decimal r of
                             NaN \<Rightarrow> NaN
                           | Val v \<Rightarrow> Val (negate v))
                        else unsigned_decimal s)))"

text \<open>\<open>parts[i] || 0\<close>: an index past the end, \<open>NaN\<close> and 0 all give 0.\<close>

definition part_at :: "jsnum list \<Rightarrow> nat \<Rightarrow> jsval" where
  "part_at ps i =
     (if i < length ps then (case ps ! i of NaN \<Rightarrow> Finite 0 | Val v \<Rightarrow> v)
      else Finite 0)"

section \<open>compareVersions\<close>

text \<open>The \<open>for\<close> loop over \<open>i = 0 .. len - 1\<close>, as a recursion over the indices left.\<close>

fun compare_loop :: "jsnum list \<Rightarrow> jsnum list \<Rightarrow> nat list \<Rightarrow> int" where
  "compare_loop parts1 parts2 [] = 0"
| "compare_loop parts1 parts2 (i # is) =
     (let p1 = part_at parts1 i; p2 = part_at parts2 i
      in if p1 > p2 then 1
         else if p1 < p2 then - 1
         else compare_loop parts1 parts2 is)"

text \<open>\<open>v.split('.').map(Number)\<close>\<close>

definition parts :: "string \<Rightarrow> jsnum list" where
  "parts v = map Number_js (split_on CHR ''.'' v)"

definition compareVersions :: "string \<Rightarrow> string \<Rightarrow> int" where
  "compareVersions v1 v2 =
     (let parts1 = parts v1;
          parts2 = parts v2;
          len = max (length parts1) (length parts2)
      in compare_loop parts1 parts2 [0..<len])"

text \<open>
  The number compared at position \<open>i\<close> of a version: \<open>component v i\<close> is what the loop
  reads as \<open>p1\<close> or \<open>p2\<close> at index \<open>i\<close>.
\<close>

definition component :: "string \<Rightarrow> nat \<Rightarrow> jsval" where
  "component v i = part_at (parts v) i"

text \<open>
  A well-formed dotted-numeric version: one or more non-empty runs of decimal digits,
  separated by single dots.
\<close>

definition wf_version :: "string \<Rightarrow> bool" where
  "wf_version v = list_all (\<lambda>p. p \<noteq> [] \<and> list_all is_digit p) (split_on CHR ''.'' v)"

section \<open>extractKeysFromXml\<close>

text \<open>
  The regular expression \<open><Key>(.*?)</Key>\<close> with the global flag. \<open>key_body\<close> is the
  lazy group followed by the closing tag, tried right behind an opening tag: it stops
  at the first closing tag and fails on a line terminator, which \<open>.\<close> does not match.
  It returns the captured key and the text behind the match, where the next
  \<open>exec\<close> resumes.
\<close>

fun key_body :: "string \<Rightarrow> (string \<times> string) option" where
  "key_body [] = None"
| "key_body (c # s) =
     (if startsWith (c # s) ''</Key>'' then Some ([], drop 6 (c # s))
      else if c = CHR 0x0A \<or> c = CHR 0x0D then None
      else (case key_body s of None \<Rightarrow> None | Some (k, r) \<Rightarrow> Some (c # k, r)))"

lemma key_body_shorter: "key_body s = Some (k, r) \<Longrightarrow> length r \<le> length s"
  by (induction s arbitrary: k r) (auto split: if_splits option.splits)

function extractKeysFromXml :: "string \<Rightarrow> string list" where
  "extractKeysFromXml [] = []"
| "extractKeysFromXml (c # s) =
     (if startsWith (c # s) ''<Key>'' then
        (case key_body (drop 5 (c # s)) of
           Some (k, r) \<Rightarrow> k # extractKeysFromXml r
         | None \<Rightarrow> extractKeysFromXml s)
      else extractKeysFromXml s)"
  by pat_completeness auto
termination
proof (relation "measure length")
  fix c s x2 k r
  assume st: "startsWith (c # s) ''<Key>''"
    and kb: "key_body (drop 5 (c # s)) = Some x2" and x2: "(k, r) = x2"
  from kb x2 have "length r \<le> length (drop 5 (c # s))"
    using key_body_shorter by metis
  then show "(r, c # s) \<in> measure length" by simp
qed auto

section \<open>The version pattern\<close>

text \<open>
  The regular expression \<open>-(\d+\.\d+\.\d+\.\d+)\.(?:bin|dfu)\<close>, unanchored, as used by
  \<open>key.match\<close>: the leftmost match wins and the result is its group 1. A digit run
  that must be followed by a dot can only be the maximal run, so \<open>digits_dot\<close> matches
  \<open>\d+\.\<close> at the start of its argument and returns the digits and the text behind
  the dot.
\<close>

definition digits_dot :: "string \<Rightarrow> (string \<times> string) option" where
  "digits_dot s =
     (let ds = takeWhile is_digit s; r = dropWhile is_digit s
      in (case r of
            [] \<Rightarrow> None
          | c # r' \<Rightarrow> if ds \<noteq> [] \<and> c = CHR ''.'' then Some (ds, r') else None))"

definition version_at :: "string \<Rightarrow> string option" where
  "version_at s =
     (case digits_dot s of None \<Rightarrow> None | Some (a, s1) \<Rightarrow>
      (case digits_dot s1 of None \<Rightarrow> None | Some (b, s2) \<Rightarrow>
       (case digits_dot s2 of None \<Rightarrow> None | Some (c, s3) \<Rightarrow>
        (case digits_dot s3 of None \<Rightarrow> None | Some (d, s4) \<Rightarrow>
           if startsWith s4 ''bin'' \<or> startsWith s4 ''dfu''
           then Some (a @ ''.'' @ b @ ''.'' @ c @ ''.'' @ d)
           else None))))"

fun versionRegex :: "string \<Rightarrow> string option" where
  "versionRegex [] = None"
| "versionRegex (c # s) =
     (if c = CHR ''-'' then
        (case version_at s of Some v \<Rightarrow> Some v | None \<Rightarrow> versionRegex s)
      else versionRegex s)"

section \<open>extractAvailableVersions\<close>

text \<open>
  \<open>Set.add\<close> on a set kept in insertion order, which is the order \<open>Array.from\<close>
  returns.
\<close>

definition set_add :: "string list \<Rightarrow> string \<Rightarrow> string list" where
  "set_add xs v = (if v \<in> set xs then xs else xs @ [v])"

definition version_step :: "string list \<Rightarrow> string \<Rightarrow> string list" where
  "version_step availableVersions key =
     (case versionRegex key of
        None \<Rightarrow> availableVersions
      | Some v \<Rightarrow> if v \<noteq> [] then set_add availableVersions v else availableVersions)"

definition extractAvailableVersions :: "string list \<Rightarrow> string list" where
  "extractAvailableVersions relevantKeys = foldl version_step [] relevantKeys"

section \<open>getNotecardTypeFromModel\<close>

text \<open>
  \<open>notecardTypeMap\<close> with its entries in the order \<open>Object.entries\<close> yields them: none
  of the four keys is an array index, so it is the order of the object literal.
\<close>

definition notecardTypeMap :: "(string \<times> string list) list" where
  "notecardTypeMap =
     [([], [''500'']),
      (''u5'', [''NB'', ''MB'', ''WB'']),
      (''wl'', [''LW'']),
      (''s3'', [''ESP''])]"

fun any_substring :: "string \<Rightarrow> string list \<Rightarrow> bool" where
  "any_substring notecardModel [] = False"
| "any_substring notecardModel (substring # rest) =
     (if includes_str notecardModel substring then True
      else any_substring notecardModel rest)"

fun first_entry :: "string \<Rightarrow> (string \<times> string list) list \<Rightarrow> string option" where
  "first_entry notecardModel [] = None"
| "first_entry notecardModel ((key, modelSubstrings) # rest) =
     (if any_substring notecardModel modelSubstrings then Some key
      else first_entry notecardModel rest)"

definition getNotecardTypeFromModel :: "string option \<Rightarrow> string option" where
  "getNotecardTypeFromModel notecardModel =
     (if \<not> truthy notecardModel then None
      else (case notecardModel of
              None \<Rightarrow> None
            | Some m \<Rightarrow> first_entry m notecardTypeMap))"

section \<open>The fetched index and the errors\<close>

text \<open>
  The outcome of \<open>fetch(firmwareIndexUrl)\<close> is an input of the model: the promise
  rejects with a message, or resolves to a response whose body is the listing.
\<close>

record response =
  ok :: bool
  status :: nat
  statusText :: string
  body :: string

datatype fetched = Rejected string | Resolved response

text \<open>One constructor for each \<open>throw\<close>; \<open>message\<close> is the text the error carries.\<close>

datatype error =
    FetchError string
  | NoFilesForPrefix string
  | NoFilesForType string string
  | VersionNotFound string string "string list"
  | NoValidVersions string "string list"
  | NoKeyDetermined

fun string_of_nat :: "nat \<Rightarrow> string" where
  "string_of_nat n =
     (if n < 10 then [char_of (48 + n)]
      else string_of_nat (n div 10) @ [char_of (48 + n mod 10)])"

declare string_of_nat.simps [simp del]

definition quoted :: "string \<Rightarrow> string" where
  "quoted s = [CHR 0x27] @ s @ [CHR 0x27]"

fun message :: "error \<Rightarrow> string" where
  "message (FetchError m) = m"
| "message (NoFilesForPrefix updateType) =
     ''No firmware files found in S3 XML for prefix '' @ quoted updateType @ ''.''"
| "message (NoFilesForType notecardType updateType) =
     ''No firmware files found for Notecard type '' @ quoted notecardType
       @ '' with prefix '' @ quoted updateType @ ''.''"
| "message (VersionNotFound versionToUse notecardType availableVersions) =
     ''Firmware version '' @ quoted versionToUse
       @ '' not found for Notecard type '' @ quoted notecardType
       @ ''. Available: ''
       @ (if join '', '' availableVersions \<noteq> [] then join '', '' availableVersions
          else ''None'')"
| "message (NoValidVersions notecardType availableVersions) =
     ''Could not find any valid firmware versions for Notecard type ''
       @ quoted notecardType @ ''.''
       @ (if length availableVersions > 0
          then '' Available: '' @ join '', '' availableVersions else [])"
| "message NoKeyDetermined =
     ''Could not determine appropriate firmware key after filtering.''"

definition fetch_text :: "fetched \<Rightarrow> error + string" where
  "fetch_text f =
     (case f of
        Rejected m \<Rightarrow> Inl (FetchError m)
      | Resolved res \<Rightarrow>
          if \<not> ok res
          then Inl (FetchError (''Failed to fetch firmware index: ''
                 @ string_of_nat (status res) @ '' '' @ statusText res))
          else Inr (body res))"

text \<open>\<open>allKeys.filter(key => key.includes(`-${notecardType}-`))\<close>\<close>

definition relevant :: "string \<Rightarrow> string list \<Rightarrow> string list" where
  "relevant notecardType allKeys =
     filter (\<lambda>key. includes_str key (''-'' @ notecardType @ ''-'')) allKeys"

section \<open>listAvailableFirmwareVersions\<close>

text \<open>
  The result is the array returned, or the error caught and thrown again, whose
  message is \<open>Could not list firmware versions: \<close> followed by \<open>message\<close> of the value.
\<close>

definition listAvailableFirmwareVersions ::
  "fetched \<Rightarrow> string \<Rightarrow> string \<Rightarrow> error + string list" where
  "listAvailableFirmwareVersions f updateType notecardType =
     (case fetch_text f of
        Inl e \<Rightarrow> Inl e
      | Inr firmwareIndexXml \<Rightarrow>
          (let allKeys = extractKeysFromXml firmwareIndexXml
           in if length allKeys = 0 then Inr []
              else (let relevantKeys = relevant notecardType allKeys
                    in if length relevantKeys = 0 then Inr []
                       else Inr (extractAvailableVersions relevantKeys))))"

section \<open>findFirmwareUrl\<close>

text \<open>
  The two variables the selection loop assigns, and one pass of its body. Whether
  \<open>selectedKey\<close> ends with a suffix is only asked behind the test that it is set.
\<close>

record selection =
  selectedKey :: "string option"
  latestVersion :: string

definition selected_endsWith :: "string option \<Rightarrow> string \<Rightarrow> bool" where
  "selected_endsWith k t = (case k of None \<Rightarrow> False | Some s \<Rightarrow> endsWith s t)"

definition select_step :: "string \<Rightarrow> selection \<Rightarrow> string \<Rightarrow> selection" where
  "select_step versionToUse st key =
     (case versionRegex key of
        None \<Rightarrow> st
      | Some keyVersion \<Rightarrow>
          if keyVersion = [] then st
          else if versionToUse = ''latest'' then
            (if compareVersions keyVersion (latestVersion st) > 0
             then st\<lparr>latestVersion := keyVersion, selectedKey := Some key\<rparr>
             else if compareVersions keyVersion (latestVersion st) = 0
                     \<and> truthy (selectedKey st) \<and> \<not> endsWith key ''.bin''
                     \<and> selected_endsWith (selectedKey st) ''.dfu''
             then st\<lparr>selectedKey := Some key\<rparr>
             else st)
          else if keyVersion = versionToUse then
            (if \<not> truthy (selectedKey st)
                \<or> (truthy (selectedKey st)
                    \<and> \<not> selected_endsWith (selectedKey st) ''.bin''
                    \<and> endsWith key ''.bin'')
                \<or> endsWith key ''.bin''
             then st\<lparr>selectedKey := Some key\<rparr>
             else st)
          else st)"

definition select_loop :: "string \<Rightarrow> string list \<Rightarrow> selection" where
  "select_loop versionToUse relevantKeys =
     foldl (select_step versionToUse)
       \<lparr>selectedKey = None, latestVersion = ''0.0.0.0''\<rparr> relevantKeys"

definition firmware_host :: string where
  "firmware_host = ''https://notecard-firmware.s3.amazonaws.com/''"

text \<open>
  The result is \<open>Inr (Some url)\<close> for the URL returned, \<open>Inr None\<close> for \<open>null\<close> (already
  up to date), or the error caught and thrown again, whose message is
  \<open>Could not find firmware: \<close> followed by \<open>message\<close> of the value.
\<close>

definition findFirmwareUrl ::
  "fetched \<Rightarrow> string \<Rightarrow> string \<Rightarrow> string \<Rightarrow> string option \<Rightarrow> error + string option" where
  "findFirmwareUrl f updateType notecardType versionToUse currentVersion =
     (case fetch_text f of
        Inl e \<Rightarrow> Inl e
      | Inr firmwareIndexXml \<Rightarrow>
          (let allKeys = extractKeysFromXml firmwareIndexXml
           in if length allKeys = 0 then Inl (NoFilesForPrefix updateType)
              else
          (let relevantKeys = relevant notecardType allKeys
           in if length relevantKeys = 0 then Inl (NoFilesForType notecardType updateType)
              else
          (let availableVersions = extractAvailableVersions relevantKeys;
               st = select_loop versionToUse relevantKeys
           in if versionToUse = ''latest'' \<and> truthy currentVersion
                 \<and> (case currentVersion of
                       None \<Rightarrow> False
                     | Some cur \<Rightarrow> compareVersions cur (latestVersion st) \<ge> 0)
              then Inr None
              else if versionToUse \<noteq> ''latest'' \<and> \<not> truthy (selectedKey st)
              then Inl (VersionNotFound versionToUse notecardType availableVersions)
              else if versionToUse = ''latest'' \<and> \<not> truthy (selectedKey st)
              then Inl (NoValidVersions notecardType availableVersions)
              else (case selectedKey st of
                      None \<Rightarrow> Inl NoKeyDetermined
                    | Some k \<Rightarrow>
                        if k = [] then Inl NoKeyDetermined
                        else Inr (Some (firmware_host @ k)))))))"

definition thrown_message :: "error \<Rightarrow> string" where
  "thrown_message e = ''Could not find firmware: '' @ message e"

section \<open>Example listings\<close>

text \<open>
  A successful response carrying a given body, a bucket listing with the given keys in
  the given order, and the two keys of one release used in the examples.
\<close>

definition ok_response :: "string \<Rightarrow> fetched" where
  "ok_response xml = Resolved \<lparr>ok = True, status = 200, statusText = ''OK'', body = xml\<rparr>"

definition listing :: "string list \<Rightarrow> string" where
  "listing keys =
     ''<ListBucketResult><Name>notecard-firmware</Name>''
       @ concat (map (\<lambda>k. ''<Contents><Key>'' @ k @ ''</Key><Size>1</Size></Contents>'') keys)
       @ ''</ListBucketResult>''"

definition key_bin :: string where
  "key_bin = ''LTS/notecard-u5-6.2.5.16868.bin''"

definition key_dfu :: string where
  "key_dfu = ''LTS/notecard-u5-6.2.5.16868.dfu''"

text \<open>
  A key whose version is \<open>0.0.0.0\<close>, and a key that passes the filter for \<open>u5\<close> and
  carries no version.
\<close>

definition key_zero :: string where
  "key_zero = ''LTS/notecard-u5-0.0.0.0.bin''"

definition key_readme :: string where
  "key_readme = ''LTS/notecard-u5-readme.txt''"

section \<open>Invariants of the selection loop\<close>

text \<open>
  What holds of the loop variables after the keys of \<open>S\<close> have been scanned, for a
  request of \<open>latest\<close>: \<open>latestVersion\<close> is at least the initial \<open>0.0.0.0\<close> and at
  least every version seen, and either nothing is selected and \<open>latestVersion\<close> is still
  the initial one, or a scanned key is selected whose version compares equal to
  \<open>latestVersion\<close>, which is above \<open>0.0.0.0\<close>.
\<close>

definition latest_inv :: "string set \<Rightarrow> selection \<Rightarrow> bool" where
  "latest_inv S st =
     (compareVersions (latestVersion st) ''0.0.0.0'' \<ge> 0
      \<and> (\<forall>k\<in>S. \<forall>v. versionRegex k = Some v \<longrightarrow> compareVersions (latestVersion st) v \<ge> 0)
      \<and> ((selectedKey st = None \<and> latestVersion st = ''0.0.0.0'')
         \<or> (\<exists>k\<in>S. \<exists>v. selectedKey st = Some k \<and> versionRegex k = Some v
               \<and> compareVersions v (latestVersion st) = 0
               \<and> compareVersions (latestVersion st) ''0.0.0.0'' > 0)))"

text \<open>
  The same for a request of the version \<open>v\<close>: nothing is selected and no scanned key
  carries \<open>v\<close>, or a scanned key carrying \<open>v\<close> is selected, and it ends with \<open>.bin\<close>
  if any scanned key carrying \<open>v\<close> does.
\<close>

definition specific_inv :: "string \<Rightarrow> string set \<Rightarrow> selection \<Rightarrow> bool" where
  "specific_inv v S st =
     ((selectedKey st = None \<and> (\<forall>k\<in>S. versionRegex k \<noteq> Some v))
      \<or> (\<exists>k\<in>S. selectedKey st = Some k \<and> versionRegex k = Some v
            \<and> (endsWith k ''.bin''
                \<or> (\<forall>b\<in>S. versionRegex b = Some v \<longrightarrow> \<not> endsWith b ''.bin''))))"

section \<open>Rounding to a double\<close>

lemma pow2_pos: "0 < pow2 k"
  by (simp add: pow2_def)

lemma pow2_Suc: "pow2 (k + 1) = 2 * pow2 k"
proof (cases "0 \<le> k")
  case True
  then show ?thesis by (simp add: pow2_def nat_add_distrib)
next
  case False
  then have "nat (- k) = Suc (nat (- (k + 1)))" by simp
  then show ?thesis using False by (auto simp: pow2_def)
qed

lemma pow2_mono: "j \<le> k \<Longrightarrow> pow2 j \<le> pow2 k"
proof (induction "nat (k - j)" arbitrary: k)
  case 0
  then show ?case by simp
next
  case (Suc n)
  then have "n = nat ((k - 1) - j)" "j \<le> k - 1" by auto
  then have "pow2 j \<le> pow2 (k - 1)" using Suc.hyps(1) by blast
  also have "\<dots> \<le> pow2 k" using pow2_Suc [of "k - 1"] pow2_pos [of "k - 1"] by simp
  finally show ?case .
qed

lemma halvings_bounds:
  "1 \<le> q \<Longrightarrow> 2 ^ halvings q \<le> q \<and> q < 2 ^ Suc (halvings q)"
proof (induction q rule: halvings.induct)
  case (1 q)
  show ?case
  proof (cases "q < 2")
    case True
    then show ?thesis using "1.prems" by (simp add: halvings.simps [of q])
  next
    case False
    then have "1 \<le> q / 2" by simp
    then have "2 ^ halvings (q / 2) \<le> q / 2 \<and> q / 2 < 2 ^ Suc (halvings (q / 2))"
      using "1.IH" False by blast
    then show ?thesis using False by (simp add: halvings.simps [of q])
  qed
qed

lemma binade_bounds:
  assumes "0 < q"
  shows "pow2 (binade q) \<le> q \<and> q < pow2 (binade q + 1)"
proof (cases "1 \<le> q")
  case True
  then show ?thesis
    using halvings_bounds [OF True] by (simp add: binade_def pow2_def nat_add_distrib)
next
  case False
  define t where "t = 1 / q"
  define u where "u = halvings t"
  have t: "1 \<le> t" "0 < t" using assms False by (simp_all add: t_def)
  have q: "q = 1 / t" using assms by (simp add: t_def)
  have b: "2 ^ u \<le> t" "t < 2 * 2 ^ u"
    using halvings_bounds [OF t(1)] by (simp_all add: u_def)
  have pu: "pow2 (int u) = 2 ^ u" by (simp add: pow2_def)
  have pn: "pow2 (- int u) = 1 / 2 ^ u" by (cases "u = 0") (simp_all add: pow2_def)
  have pn1: "pow2 (- int u - 1) = 1 / (2 * 2 ^ u)"
    using pow2_Suc [of "- int u - 1"] pn by simp
  show ?thesis
  proof (cases "pow2 (int u) * q = 1")
    case True
    then have e: "binade q = - int u"
      using False by (simp add: binade_def Let_def u_def t_def)
    from True have "q = 1 / 2 ^ u" using pu by (simp add: field_simps)
    moreover have "(1::rat) / 2 ^ u < 2 / 2 ^ u"
      by (rule divide_strict_right_mono) simp_all
    ultimately show ?thesis
      using e pn pow2_Suc [of "- int u"] by simp
  next
    case F2: False
    then have e: "binade q = - int u - 1"
      using False by (simp add: binade_def Let_def u_def t_def)
    from F2 have "t \<noteq> 2 ^ u" using pu q t(2) by auto
    then have lt: "2 ^ u < t" using b(1) by simp
    have "1 / (2 * 2 ^ u) < 1 / t" using b(2) t(2) by (simp add: field_simps)
    moreover have "1 / t < 1 / 2 ^ u" using lt t(2) by (simp add: field_simps)
    ultimately show ?thesis
      using e pn pn1 q by simp
  qed
qed

lemma binade_unique:
  assumes "pow2 e \<le> q" and "q < pow2 (e + 1)"
  shows "binade q = e"
proof -
  have "0 < q" using assms(1) pow2_pos [of e] by simp
  then have b: "pow2 (binade q) \<le> q" "q < pow2 (binade q + 1)"
    using binade_bounds by blast+
  have "\<not> binade q + 1 \<le> e"
  proof
    assume "binade q + 1 \<le> e"
    then have "pow2 (binade q + 1) \<le> pow2 e" by (rule pow2_mono)
    then show False using b(2) assms(1) by simp
  qed
  moreover have "\<not> e + 1 \<le> binade q"
  proof
    assume "e + 1 \<le> binade q"
    then have "pow2 (e + 1) \<le> pow2 (binade q)" by (rule pow2_mono)
    then show False using b(1) assms(2) by simp
  qed
  ultimately show ?thesis by simp
qed

lemma round_half_even_of_int: "round_half_even (of_int k) = k"
  by (simp add: round_half_even_def)

lemma round_half_even_nonneg: "0 \<le> x \<Longrightarrow> 0 \<le> round_half_even x"
  by (auto simp: round_half_even_def Let_def)

lemma to_double_nonneg: "Finite 0 \<le> to_double q"
proof (cases "q \<le> 0")
  case True
  then show ?thesis by (simp add: to_double_def)
next
  case False
  define p where "p = max (binade q) (- 1022) - 52"
  have "0 \<le> q / pow2 p" using False pow2_pos [of p] by simp
  then have "0 \<le> round_half_even (q / pow2 p)" by (rule round_half_even_nonneg)
  then have "0 \<le> of_int (round_half_even (q / pow2 p)) * pow2 p"
    using pow2_pos [of p] by simp
  then show ?thesis using False by (simp add: to_double_def Let_def p_def)
qed

lemma to_double_exact:
  assumes "n < 2 ^ 53"
  shows "to_double (of_nat n) = Finite (of_nat n)"
proof (cases "n = 0")
  case True
  then show ?thesis by (simp add: to_double_def)
next
  case False
  define q :: rat where "q = of_nat n"
  define e where "e = halvings q"
  have q1: "1 \<le> q" using False by (simp add: q_def)
  have hb: "2 ^ e \<le> q" using halvings_bounds [OF q1] by (simp add: e_def)
  have "q < 2 ^ 53" using assms unfolding q_def
    by (metis of_nat_less_iff of_nat_numeral of_nat_power)
  have e52: "e \<le> 52"
  proof (rule ccontr)
    assume "\<not> e \<le> 52"
    then have "53 \<le> e" by simp
    then have "(2::rat) ^ 53 \<le> 2 ^ e" by (rule power_increasing) simp
    then show False using hb \<open>q < 2 ^ 53\<close> by linarith
  qed
  have be: "binade q = int e" using q1 by (simp add: binade_def e_def)
  define p where "p = max (binade q) (- 1022) - 52"
  have p: "p = int e - 52" by (simp add: p_def be)
  have pp: "pow2 p = 1 / 2 ^ (52 - e)"
  proof (cases "e = 52")
    case True
    then show ?thesis by (simp add: p pow2_def)
  next
    case F: False
    then have "p < 0" "nat (- p) = 52 - e" using e52 p by auto
    then show ?thesis by (simp add: pow2_def)
  qed
  have "q / pow2 p = of_int (int (n * 2 ^ (52 - e)))"
    by (simp add: pp q_def)
  then have "round_half_even (q / pow2 p) = int (n * 2 ^ (52 - e))"
    using round_half_even_of_int by metis
  then have r: "of_int (round_half_even (q / pow2 p)) * pow2 p = q"
    by (simp add: pp q_def)
  have "q < pow2 1024"
  proof -
    have "(2::rat) ^ 53 \<le> 2 ^ 1024" by (rule power_increasing) simp_all
    then show ?thesis using \<open>q < 2 ^ 53\<close> by (simp add: pow2_def)
  qed
  then show ?thesis
    using q1 r unfolding to_double_def Let_def p_def [symmetric] q_def [symmetric] by simp
qed


section \<open>Conversion of digit runs\<close>

lemma is_digit_not_space: "is_digit c \<Longrightarrow> \<not> is_space c"
  by (auto simp: is_digit_def is_space_def)

lemma dropWhile_space_digits: "list_all is_digit s \<Longrightarrow> dropWhile is_space s = s"
  by (cases s) (auto simp: is_digit_not_space)

lemma trim_digits: "list_all is_digit s \<Longrightarrow> trim s = s"
proof -
  assume a: "list_all is_digit s"
  then have "list_all is_digit (rev s)" by (simp add: list_all_iff)
  then show ?thesis using a by (simp add: trim_def dropWhile_space_digits)
qed

lemma non_decimal_digits: "list_all is_digit s \<Longrightarrow> non_decimal s = None"
  by (auto simp: non_decimal_def is_digit_def split: list.splits)

lemma unsigned_decimal_digits:
  assumes "s \<noteq> []" and "list_all is_digit s"
  shows "unsigned_decimal s = Val (to_double (of_nat (dec_value s)))"
proof -
  have "\<not> list_all is_digit ''Infinity''" by (simp add: is_digit_def)
  then have ne: "s \<noteq> ''Infinity''" using assms(2) by auto
  have tw: "takeWhile is_digit s = s" and dw: "dropWhile is_digit s = []"
    using assms(2) by (simp_all add: list_all_iff)
  show ?thesis
    unfolding unsigned_decimal_def Let_def tw dw using ne assms(1) by simp
qed

lemma Number_js_digits:
  assumes "s \<noteq> []" and "list_all is_digit s"
  shows "Number_js s = Val (to_double (of_nat (dec_value s)))"
proof -
  obtain c r where s: "s = c # r" using assms(1) by (cases s) auto
  have "is_digit c" using assms(2) s by simp
  then have "c \<noteq> CHR ''+''" "c \<noteq> CHR ''-''" by (auto simp: is_digit_def)
  then show ?thesis
    using assms s unsigned_decimal_digits [OF assms]
    by (simp add: Number_js_def trim_digits non_decimal_digits)
qed

lemma Number_js_small:
  assumes "s \<noteq> []" and "list_all is_digit s" and "dec_value s < 2 ^ 53"
  shows "Number_js s = Val (Finite (of_nat (dec_value s)))"
  using Number_js_digits [OF assms(1,2)] to_double_exact [OF assms(3)] by simp

lemma parts_initial: "parts ''0.0.0.0'' = [Val (Finite 0), Val (Finite 0), Val (Finite 0), Val (Finite 0)]"
  by (simp add: parts_def Number_js_small is_digit_def dec_value_def digit_val_def)

lemma parts_release:
  "parts ''6.2.5.16868'' = [Val (Finite 6), Val (Finite 2), Val (Finite 5), Val (Finite 16868)]"
  by (simp add: parts_def Number_js_small is_digit_def dec_value_def digit_val_def)

lemma parts_seven:
  "parts ''7.0.0.0'' = [Val (Finite 7), Val (Finite 0), Val (Finite 0), Val (Finite 0)]"
  by (simp add: parts_def Number_js_small is_digit_def dec_value_def digit_val_def)

lemma release_above_initial: "compareVersions ''6.2.5.16868'' ''0.0.0.0'' > 0"
  by (simp add: compareVersions_def parts_release parts_initial Let_def upt_rec part_at_def
      less_jsval_def)


lemma to_double_one: "to_double 1 = Finite 1"
  using to_double_exact [of 1] by simp

lemma to_double_tie: "to_double 9007199254740993 = Finite 9007199254740992"
proof -
  have "binade 9007199254740993 = 53"
    by (rule binade_unique) (simp_all add: pow2_def)
  moreover have "\<lfloor>9007199254740993 / 2 :: rat\<rfloor> = 4503599627370496"
    by (rule floor_unique) simp_all
  ultimately show ?thesis
    by (simp add: to_double_def Let_def pow2_def round_half_even_def)
qed

lemma to_double_2_53: "to_double 9007199254740992 = Finite 9007199254740992"
proof -
  have "binade 9007199254740992 = 53"
    by (rule binade_unique) (simp_all add: pow2_def)
  then show ?thesis
    by (simp add: to_double_def Let_def pow2_def round_half_even_def)
qed

lemma parts_above_2_53:
  "parts ''9007199254740993'' = [Val (Finite 9007199254740992)]"
  "parts ''9007199254740992'' = [Val (Finite 9007199254740992)]"
  by (simp_all add: parts_def Number_js_digits is_digit_def dec_value_def digit_val_def
      to_double_tie to_double_2_53)

lemma compareVersions_above_2_53:
  "compareVersions ''9007199254740993'' ''9007199254740992'' = 0"
  by (simp add: compareVersions_def parts_above_2_53 Let_def part_at_def)

lemma Number_js_minus_one: "Number_js ''-1'' = Val (Finite (- 1))"
  by (simp add: Number_js_def trim_def is_space_def non_decimal_def unsigned_decimal_def
      is_digit_def dec_value_def digit_val_def negate_def to_double_one)

lemma parts_minus_one:
  "parts ''-1.0.0.0'' = [Val (Finite (- 1)), Val (Finite 0), Val (Finite 0), Val (Finite 0)]"
  by (simp add: parts_def Number_js_minus_one Number_js_small is_digit_def dec_value_def
      digit_val_def)

lemma compareVersions_minus_one: "compareVersions ''-1.0.0.0'' ''0.0.0.0'' = - 1"
  by (simp add: compareVersions_def parts_minus_one parts_initial Let_def upt_rec part_at_def
      less_jsval_def)

section \<open>The comparison is a total preorder\<close>

lemma compare_loop_flip: "compare_loop q p is = - compare_loop p q is"
  by (induction "is") (auto simp: Let_def)

lemma compare_loop_same: "compare_loop p p is = 0"
  by (induction "is") (auto simp: Let_def)

lemma compare_loop_values: "compare_loop p q is \<in> {- 1, 0, 1}"
  by (induction "is") (auto simp: Let_def)

lemma compare_loop_append:
  "compare_loop p q (xs @ ys) =
     (if compare_loop p q xs = 0 then compare_loop p q ys else compare_loop p q xs)"
  by (induction xs) (auto simp: Let_def)

lemma compare_loop_beyond:
  "\<forall>i\<in>set is. length p \<le> i \<and> length q \<le> i \<Longrightarrow> compare_loop p q is = 0"
  by (induction "is") (auto simp: Let_def part_at_def)

lemma compare_loop_extend:
  assumes "max (length p) (length q) \<le> n"
  shows "compare_loop p q [0..<n] = compare_loop p q [0..<max (length p) (length q)]"
proof -
  let ?m = "max (length p) (length q)"
  have "[0..<n] = [0..<?m] @ [?m..<n]"
    using assms by (metis le_add_diff_inverse upt_add_eq_append zero_le)
  moreover have "compare_loop p q [?m..<n] = 0"
    by (rule compare_loop_beyond) auto
  ultimately show ?thesis by (simp add: compare_loop_append)
qed

lemma compare_loop_trans_ge:
  "compare_loop p q is \<ge> 0 \<Longrightarrow> compare_loop q r is \<ge> 0 \<Longrightarrow> compare_loop p r is \<ge> 0"
  by (induction "is") (auto simp: Let_def split: if_splits)

lemma compare_loop_trans_gt1:
  "compare_loop p q is > 0 \<Longrightarrow> compare_loop q r is \<ge> 0 \<Longrightarrow> compare_loop p r is > 0"
  by (induction "is") (auto simp: Let_def split: if_splits)

lemma compare_loop_trans_gt2:
  "compare_loop p q is \<ge> 0 \<Longrightarrow> compare_loop q r is > 0 \<Longrightarrow> compare_loop p r is > 0"
  by (induction "is") (auto simp: Let_def split: if_splits)

lemma compare_loop_zero:
  "compare_loop p q [0..<n] = 0 \<longleftrightarrow> (\<forall>i<n. part_at p i = part_at q i)"
  by (induction n) (auto simp: compare_loop_append Let_def less_Suc_eq)

lemma compare_loop_first_diff:
  "compare_loop p q [0..<n] = 1 \<longleftrightarrow>
     (\<exists>i<n. part_at p i > part_at q i \<and> (\<forall>j<i. part_at p j = part_at q j))"
proof (induction n)
  case 0
  show ?case by simp
next
  case (Suc n)
  show ?case
  proof (cases "compare_loop p q [0..<n] = 0")
    case True
    then have eq: "\<forall>i<n. part_at p i = part_at q i"
      by (simp add: compare_loop_zero)
    have "compare_loop p q [0..<Suc n] = 1 \<longleftrightarrow> part_at p n > part_at q n"
      using True by (simp add: compare_loop_append Let_def)
    also have "\<dots> \<longleftrightarrow> (\<exists>i<Suc n. part_at p i > part_at q i \<and> (\<forall>j<i. part_at p j = part_at q j))"
      using eq by (metis less_Suc_eq less_irrefl)
    finally show ?thesis .
  next
    case False
    then have ne: "\<exists>i<n. part_at p i \<noteq> part_at q i"
      by (simp add: compare_loop_zero)
    have "compare_loop p q [0..<Suc n] = 1 \<longleftrightarrow> compare_loop p q [0..<n] = 1"
      using False by (simp add: compare_loop_append)
    also have "\<dots> \<longleftrightarrow> (\<exists>i<n. part_at p i > part_at q i \<and> (\<forall>j<i. part_at p j = part_at q j))"
      by (rule Suc.IH)
    also have "\<dots> \<longleftrightarrow> (\<exists>i<Suc n. part_at p i > part_at q i \<and> (\<forall>j<i. part_at p j = part_at q j))"
      using ne by (metis less_Suc_eq)
    finally show ?thesis .
  qed
qed


lemma compareVersions_loop:
  "compareVersions a b = compare_loop (parts a) (parts b) [0..<max (length (parts a)) (length (parts b))]"
  by (simp add: compareVersions_def Let_def)

lemma compareVersions_upto:
  "max (length (parts a)) (length (parts b)) \<le> n \<Longrightarrow>
     compareVersions a b = compare_loop (parts a) (parts b) [0..<n]"
  using compare_loop_extend [of "parts a" "parts b" n] by (simp only: compareVersions_loop)

lemma compareVersions_flip: "compareVersions b a = - compareVersions a b"
  by (simp add: compareVersions_loop max.commute compare_loop_flip [of "parts b" "parts a"])

lemma compareVersions_same: "compareVersions a a = 0"
  by (simp add: compareVersions_loop compare_loop_same)

lemma compareVersions_values: "compareVersions a b \<in> {- 1, 0, 1}"
  by (simp only: compareVersions_loop compare_loop_values)

lemma compareVersions_trans_ge:
  assumes "compareVersions a b \<ge> 0" and "compareVersions b c \<ge> 0"
  shows "compareVersions a c \<ge> 0"
proof -
  define n where "n = max (length (parts a)) (max (length (parts b)) (length (parts c)))"
  have ab: "compareVersions a b = compare_loop (parts a) (parts b) [0..<n]"
    and bc: "compareVersions b c = compare_loop (parts b) (parts c) [0..<n]"
    and ac: "compareVersions a c = compare_loop (parts a) (parts c) [0..<n]"
    by (rule compareVersions_upto, simp add: n_def)+
  show ?thesis using assms compare_loop_trans_ge unfolding ab bc ac by blast
qed

lemma compareVersions_trans_gt1:
  assumes "compareVersions a b > 0" and "compareVersions b c \<ge> 0"
  shows "compareVersions a c > 0"
proof -
  define n where "n = max (length (parts a)) (max (length (parts b)) (length (parts c)))"
  have ab: "compareVersions a b = compare_loop (parts a) (parts b) [0..<n]"
    and bc: "compareVersions b c = compare_loop (parts b) (parts c) [0..<n]"
    and ac: "compareVersions a c = compare_loop (parts a) (parts c) [0..<n]"
    by (rule compareVersions_upto, simp add: n_def)+
  show ?thesis using assms compare_loop_trans_gt1 unfolding ab bc ac by blast
qed

lemma compareVersions_trans_gt2:
  assumes "compareVersions a b \<ge> 0" and "compareVersions b c > 0"
  shows "compareVersions a c > 0"
proof -
  define n where "n = max (length (parts a)) (max (length (parts b)) (length (parts c)))"
  have ab: "compareVersions a b = compare_loop (parts a) (parts b) [0..<n]"
    and bc: "compareVersions b c = compare_loop (parts b) (parts c) [0..<n]"
    and ac: "compareVersions a c = compare_loop (parts a) (parts c) [0..<n]"
    by (rule compareVersions_upto, simp add: n_def)+
  show ?thesis using assms compare_loop_trans_gt2 unfolding ab bc ac by blast
qed

lemma compareVersions_trans_le:
  assumes "compareVersions a b \<le> 0" and "compareVersions b c \<le> 0"
  shows "compareVersions a c \<le> 0"
proof -
  have "compareVersions c b \<ge> 0" "compareVersions b a \<ge> 0"
    using assms by (simp_all add: compareVersions_flip [of b c] compareVersions_flip [of a b])
  then have "compareVersions c a \<ge> 0" by (rule compareVersions_trans_ge)
  then show ?thesis by (simp add: compareVersions_flip [of a c])
qed

lemma component_beyond: "length (parts v) \<le> i \<Longrightarrow> component v i = Finite 0"
  by (simp add: component_def part_at_def)

lemma compareVersions_zero_iff:
  "compareVersions a b = 0 \<longleftrightarrow> (\<forall>i. component a i = component b i)"
proof -
  let ?n = "max (length (parts a)) (length (parts b))"
  have "compareVersions a b = 0 \<longleftrightarrow> (\<forall>i<?n. component a i = component b i)"
    by (simp only: compareVersions_loop compare_loop_zero component_def)
  also have "\<dots> \<longleftrightarrow> (\<forall>i. component a i = component b i)"
  proof
    assume h: "\<forall>i<?n. component a i = component b i"
    show "\<forall>i. component a i = component b i"
    proof
      fix i show "component a i = component b i"
        by (cases "i < ?n") (use h in \<open>auto simp: component_beyond\<close>)
    qed
  qed simp
  finally show ?thesis .
qed

lemma compareVersions_one_iff:
  "compareVersions a b = 1 \<longleftrightarrow>
     (\<exists>i. component a i > component b i \<and> (\<forall>j<i. component a j = component b j))"
proof -
  let ?n = "max (length (parts a)) (length (parts b))"
  have "compareVersions a b = 1 \<longleftrightarrow>
      (\<exists>i<?n. component a i > component b i \<and> (\<forall>j<i. component a j = component b j))"
    by (simp only: compareVersions_loop compare_loop_first_diff component_def)
  also have "\<dots> \<longleftrightarrow> (\<exists>i. component a i > component b i \<and> (\<forall>j<i. component a j = component b j))"
  proof
    assume "\<exists>i. component a i > component b i \<and> (\<forall>j<i. component a j = component b j)"
    then obtain i where i: "component a i > component b i" "\<forall>j<i. component a j = component b j"
      by blast
    have "i < ?n"
    proof (rule ccontr)
      assume "\<not> i < ?n"
      then have "component a i = Finite 0" "component b i = Finite 0"
        by (simp_all add: component_beyond)
      with i(1) show False by simp
    qed
    with i show "\<exists>i<?n. component a i > component b i \<and> (\<forall>j<i. component a j = component b j)"
      by blast
  qed blast
  finally show ?thesis .
qed

lemma compareVersions_minus_one_iff:
  "compareVersions a b = - 1 \<longleftrightarrow>
     (\<exists>i. component a i < component b i \<and> (\<forall>j<i. component a j = component b j))"
proof -
  have "compareVersions a b = - 1 \<longleftrightarrow> compareVersions b a = 1"
    by (simp add: compareVersions_flip [of a b])
  also have "\<dots> \<longleftrightarrow> (\<exists>i. component b i > component a i \<and> (\<forall>j<i. component b j = component a j))"
    by (rule compareVersions_one_iff)
  also have "\<dots> \<longleftrightarrow> (\<exists>i. component a i < component b i \<and> (\<forall>j<i. component a j = component b j))"
    by metis
  finally show ?thesis .
qed

lemma component_wf:
  assumes "wf_version v"
  shows "component v i =
     (if i < length (split_on CHR ''.'' v)
      then to_double (of_nat (dec_value (split_on CHR ''.'' v ! i))) else Finite 0)"
proof (cases "i < length (split_on CHR ''.'' v)")
  case True
  then have "split_on CHR ''.'' v ! i \<noteq> [] \<and> list_all is_digit (split_on CHR ''.'' v ! i)"
    using assms by (simp add: wf_version_def list_all_length)
  then have "Number_js (split_on CHR ''.'' v ! i)
      = Val (to_double (of_nat (dec_value (split_on CHR ''.'' v ! i))))"
    using Number_js_digits by blast
  then show ?thesis using True
    by (simp add: component_def part_at_def parts_def)
next
  case False
  then show ?thesis by (simp add: component_def part_at_def parts_def)
qed

lemma parts_short:
  "parts ''1.2'' = [Val (Finite 1), Val (Finite 2)]"
  "parts ''1.2.0.0'' = [Val (Finite 1), Val (Finite 2), Val (Finite 0), Val (Finite 0)]"
  "parts ''1.10'' = [Val (Finite 1), Val (Finite 10)]"
  by (simp_all add: parts_def Number_js_small is_digit_def dec_value_def digit_val_def)

lemma compareVersions_padded: "compareVersions ''1.2'' ''1.2.0.0'' = 0"
  by (simp add: compareVersions_def parts_short Let_def upt_rec part_at_def less_jsval_def)

text \<open>
  Claim C7. For all well-formed dotted-numeric versions \<open>a\<close>, \<open>b\<close>, \<open>c\<close>: comparing
  \<open>a\<close> with \<open>b\<close> is the negation of comparing \<open>b\<close> with \<open>a\<close>; a version compares equal
  to itself; the comparison is transitive; and the result is decided by the first
  position, from the left, at which the numeric components differ, where a position
  past the end of a version counts as 0, so that \<open>1.2\<close> compares equal to \<open>1.2.0.0\<close>.
  A component is the double that \<open>Number\<close> gives for its digits: the integer itself
  below \<open>2^53\<close> and the nearest double beyond, so that \<open>9007199254740993\<close> compares
  equal to \<open>9007199254740992\<close>.
\<close>

theorem compareVersions_total_order:
  assumes "wf_version a" and "wf_version b" and "wf_version c"
  shows "compareVersions a b = - compareVersions b a
       \<and> compareVersions a a = 0
       \<and> (compareVersions a b \<le> 0 \<and> compareVersions b c \<le> 0 \<longrightarrow> compareVersions a c \<le> 0)
       \<and> (\<forall>i. component a i =
              (if i < length (split_on CHR ''.'' a)
               then to_double (of_nat (dec_value (split_on CHR ''.'' a ! i)))
               else Finite 0))
       \<and> (\<forall>n. n < 2 ^ 53 \<longrightarrow> to_double (of_nat n) = Finite (of_nat n))
       \<and> compareVersions a b =
           (if \<forall>i. component a i = component b i then 0
            else if \<exists>i. component a i > component b i \<and> (\<forall>j<i. component a j = component b j)
            then 1 else - 1)
       \<and> compareVersions ''1.2'' ''1.2.0.0'' = 0
       \<and> compareVersions ''9007199254740993'' ''9007199254740992'' = 0"
proof -
  have flip: "compareVersions a b = - compareVersions b a"
    by (rule compareVersions_flip)
  have trans: "compareVersions a b \<le> 0 \<and> compareVersions b c \<le> 0 \<longrightarrow> compareVersions a c \<le> 0"
    using compareVersions_trans_le by blast
  have comp: "\<forall>i. component a i =
              (if i < length (split_on CHR ''.'' a)
               then to_double (of_nat (dec_value (split_on CHR ''.'' a ! i)))
               else Finite 0)"
    using component_wf [OF assms(1)] by blast
  have exact: "\<forall>n. n < 2 ^ 53 \<longrightarrow> to_double (of_nat n) = Finite (of_nat n)"
    using to_double_exact by blast
  have char: "compareVersions a b =
           (if \<forall>i. component a i = component b i then 0
            else if \<exists>i. component a i > component b i \<and> (\<forall>j<i. component a j = component b j)
            then 1 else - 1)"
  proof (cases "\<forall>i. component a i = component b i")
    case True
    then show ?thesis using compareVersions_zero_iff [of a b] by simp
  next
    case False
    then have nz: "compareVersions a b \<noteq> 0" using compareVersions_zero_iff [of a b] by simp
    show ?thesis
    proof (cases "\<exists>i. component a i > component b i \<and> (\<forall>j<i. component a j = component b j)")
      case True
      then have "compareVersions a b = 1" using compareVersions_one_iff [of a b] by simp
      then show ?thesis using True False by simp
    next
      case F2: False
      then have "compareVersions a b \<noteq> 1" using compareVersions_one_iff [of a b] by simp
      then have "compareVersions a b = - 1" using nz compareVersions_values [of a b] by auto
      then show ?thesis using F2 False by simp
    qed
  qed
  show ?thesis
    using flip compareVersions_same [of a] trans comp exact char compareVersions_padded
      compareVersions_above_2_53
    by (intro conjI)
qed

theorem compareVersions_total_order_witness:
  "wf_version ''1.2'' \<and> wf_version ''1.2.0.0'' \<and> wf_version ''1.10''
   \<and> compareVersions ''1.2'' ''1.2.0.0'' = - compareVersions ''1.2.0.0'' ''1.2''
   \<and> compareVersions ''1.2'' ''1.2.0.0'' \<le> 0 \<and> compareVersions ''1.2.0.0'' ''1.10'' \<le> 0
   \<and> compareVersions ''1.2'' ''1.10'' \<le> 0
   \<and> component ''1.2'' 1 = Finite 2 \<and> component ''1.2'' 2 = Finite 0"
proof -
  have a: "wf_version ''1.2''" by code_simp
  have b: "wf_version ''1.2.0.0''" by code_simp
  have c: "wf_version ''1.10''" by code_simp
  have ab: "compareVersions ''1.2'' ''1.2.0.0'' \<le> 0"
    by (simp add: compareVersions_padded)
  have bc: "compareVersions ''1.2.0.0'' ''1.10'' \<le> 0"
    by (simp add: compareVersions_def parts_short Let_def upt_rec part_at_def less_jsval_def)
  have c1: "component ''1.2'' 1 = Finite 2"
    by (simp add: component_def parts_short part_at_def)
  have c2: "component ''1.2'' 2 = Finite 0"
    by (simp add: component_def parts_short part_at_def)
  have t: "compareVersions ''1.2'' ''1.2.0.0'' = - compareVersions ''1.2.0.0'' ''1.2''
      \<and> (compareVersions ''1.2'' ''1.2.0.0'' \<le> 0 \<and> compareVersions ''1.2.0.0'' ''1.10'' \<le> 0
           \<longrightarrow> compareVersions ''1.2'' ''1.10'' \<le> 0)"
    using compareVersions_total_order [OF a b c] by blast
  show ?thesis
    using a b c ab bc c1 c2 t by simp
qed

section \<open>Extracted versions\<close>

lemma digits_dot_nonempty: "digits_dot s = Some (ds, r) \<Longrightarrow> ds \<noteq> []"
  by (auto simp: digits_dot_def Let_def split: list.splits if_splits)

lemma version_at_nonempty: "version_at s = Some v \<Longrightarrow> v \<noteq> []"
  by (auto simp: version_at_def split: option.splits prod.splits if_splits dest: digits_dot_nonempty)

lemma versionRegex_nonempty: "versionRegex k = Some v \<Longrightarrow> v \<noteq> []"
  by (induction k) (auto split: if_splits option.splits dest: version_at_nonempty)

lemma version_step_distinct: "distinct acc \<Longrightarrow> distinct (version_step acc key)"
  by (auto simp: version_step_def set_add_def split: option.splits)

lemma version_step_set:
  "set (version_step acc key) = set acc \<union> {v. versionRegex key = Some v}"
  by (auto simp: version_step_def set_add_def split: option.splits dest: versionRegex_nonempty)

lemma foldl_version_step_distinct:
  "distinct acc \<Longrightarrow> distinct (foldl version_step acc keys)"
  by (induction keys arbitrary: acc) (simp_all add: version_step_distinct)

lemma foldl_version_step_set:
  "set (foldl version_step acc keys) = set acc \<union> {v. \<exists>k\<in>set keys. versionRegex k = Some v}"
  by (induction keys arbitrary: acc) (auto simp: version_step_set)

lemma extractAvailableVersions_distinct: "distinct (extractAvailableVersions keys)"
  by (simp add: extractAvailableVersions_def foldl_version_step_distinct)

lemma extractAvailableVersions_set:
  "set (extractAvailableVersions keys) = {v. \<exists>k\<in>set keys. versionRegex k = Some v}"
  by (simp add: extractAvailableVersions_def foldl_version_step_set)

lemma count_list_distinct: "distinct xs \<Longrightarrow> x \<in> set xs \<Longrightarrow> count_list xs x = 1"
  by (induction xs) auto

text \<open>
  Claim C9. For every sequence of object keys, the versions extracted from it contain no
  duplicates: the result holds exactly the versions that some key encodes, each once,
  so two keys encoding the same version (one \<open>.bin\<close> and one \<open>.dfu\<close> key of one
  release) contribute a single entry. A version here is the text captured by the
  pattern, compared as a string, as the \<open>Set\<close> of the source compares it.
\<close>

theorem extractAvailableVersions_no_duplicates:
  "distinct (extractAvailableVersions keys)
   \<and> set (extractAvailableVersions keys) = {v. \<exists>k\<in>set keys. versionRegex k = Some v}
   \<and> (\<forall>k1\<in>set keys. \<forall>k2\<in>set keys. \<forall>v.
         versionRegex k1 = Some v \<and> versionRegex k2 = Some v
         \<longrightarrow> count_list (extractAvailableVersions keys) v = 1)"
proof -
  have "count_list (extractAvailableVersions keys) v = 1"
    if "k1 \<in> set keys" "versionRegex k1 = Some v" for k1 v
  proof -
    have "v \<in> set (extractAvailableVersions keys)"
      using that by (auto simp: extractAvailableVersions_set)
    then show ?thesis
      using extractAvailableVersions_distinct [of keys] by (simp add: count_list_distinct)
  qed
  then show ?thesis
    using extractAvailableVersions_distinct extractAvailableVersions_set by blast
qed

theorem extractAvailableVersions_no_duplicates_witness:
  "versionRegex ''LTS/notecard-u5-6.2.5.16868.bin'' = Some ''6.2.5.16868''
   \<and> versionRegex ''LTS/notecard-u5-6.2.5.16868.dfu'' = Some ''6.2.5.16868''
   \<and> count_list (extractAvailableVersions
        [''LTS/notecard-u5-6.2.5.16868.bin'', ''LTS/notecard-u5-6.2.5.16868.dfu''])
        ''6.2.5.16868'' = 1
   \<and> extractAvailableVersions
        [''LTS/notecard-u5-6.2.5.16868.bin'', ''LTS/notecard-u5-6.2.5.16868.dfu'']
      = [''6.2.5.16868'']"
proof -
  have b: "versionRegex ''LTS/notecard-u5-6.2.5.16868.bin'' = Some ''6.2.5.16868''"
    by code_simp
  have d: "versionRegex ''LTS/notecard-u5-6.2.5.16868.dfu'' = Some ''6.2.5.16868''"
    by code_simp
  have e: "extractAvailableVersions
        [''LTS/notecard-u5-6.2.5.16868.bin'', ''LTS/notecard-u5-6.2.5.16868.dfu'']
      = [''6.2.5.16868'']"
    by code_simp
  show ?thesis
    using b d e extractAvailableVersions_no_duplicates
      [of "[''LTS/notecard-u5-6.2.5.16868.bin'', ''LTS/notecard-u5-6.2.5.16868.dfu'']"]
    by simp
qed

section \<open>Classification of a model\<close>

lemma startsWith_iff: "startsWith s t \<longleftrightarrow> (\<exists>post. s = t @ post)"
  unfolding startsWith_def
  by (metis append_eq_conv_conj append_take_drop_id)

lemma includes_str_iff: "includes_str s t \<longleftrightarrow> (\<exists>pre post. s = pre @ t @ post)"
proof (induction s)
  case Nil
  show ?case by auto
next
  case (Cons c s)
  show ?case
  proof
    assume "includes_str (c # s) t"
    then consider "startsWith (c # s) t" | "includes_str s t" by auto
    then show "\<exists>pre post. c # s = pre @ t @ post"
    proof cases
      case 1
      then show ?thesis by (metis startsWith_iff append_Nil)
    next
      case 2
      then obtain pre post where "s = pre @ t @ post" using Cons.IH by blast
      then have "c # s = (c # pre) @ t @ post" by simp
      then show ?thesis by blast
    qed
  next
    assume "\<exists>pre post. c # s = pre @ t @ post"
    then obtain pre post where eq: "c # s = pre @ t @ post" by blast
    show "includes_str (c # s) t"
    proof (cases pre)
      case Nil
      then have "startsWith (c # s) t" using eq startsWith_iff by auto
      then show ?thesis by simp
    next
      case (Cons a pre')
      then have "s = pre' @ t @ post" using eq by simp
      then show ?thesis using Cons.IH by auto
    qed
  qed
qed

lemma any_substring_iff:
  "any_substring m subs \<longleftrightarrow> (\<exists>s\<in>set subs. includes_str m s)"
  by (induction subs) auto

lemma first_entry_Some_iff:
  "first_entry m es = Some code \<longleftrightarrow>
     (\<exists>i<length es. fst (es ! i) = code \<and> any_substring m (snd (es ! i))
        \<and> (\<forall>j<i. \<not> any_substring m (snd (es ! j))))"
proof (induction es)
  case Nil
  show ?case by simp
next
  case (Cons e es)
  obtain key subs where e: "e = (key, subs)" by (cases e)
  show ?case
  proof (cases "any_substring m subs")
    case True
    have "(\<exists>i<length (e # es). fst ((e # es) ! i) = code \<and> any_substring m (snd ((e # es) ! i))
        \<and> (\<forall>j<i. \<not> any_substring m (snd ((e # es) ! j)))) \<longleftrightarrow> key = code"
    proof
      assume "\<exists>i<length (e # es). fst ((e # es) ! i) = code \<and> any_substring m (snd ((e # es) ! i))
        \<and> (\<forall>j<i. \<not> any_substring m (snd ((e # es) ! j)))"
      then obtain i where i: "fst ((e # es) ! i) = code" "\<forall>j<i. \<not> any_substring m (snd ((e # es) ! j))"
        by blast
      have "i = 0"
      proof (rule ccontr)
        assume "i \<noteq> 0"
        then have "\<not> any_substring m (snd ((e # es) ! 0))" using i(2) by blast
        then show False using True e by simp
      qed
      then show "key = code" using i(1) e by simp
    next
      assume "key = code"
      then show "\<exists>i<length (e # es). fst ((e # es) ! i) = code \<and> any_substring m (snd ((e # es) ! i))
        \<and> (\<forall>j<i. \<not> any_substring m (snd ((e # es) ! j)))"
        using True e by (intro exI [of _ 0]) simp
    qed
    then show ?thesis using True e by auto
  next
    case False
    have "(\<exists>i<length (e # es). fst ((e # es) ! i) = code \<and> any_substring m (snd ((e # es) ! i))
        \<and> (\<forall>j<i. \<not> any_substring m (snd ((e # es) ! j))))
      \<longleftrightarrow> (\<exists>i<length es. fst (es ! i) = code \<and> any_substring m (snd (es ! i))
        \<and> (\<forall>j<i. \<not> any_substring m (snd (es ! j))))" (is "?L \<longleftrightarrow> ?R")
    proof
      assume ?L
      then obtain i where i: "i < length (e # es)" "fst ((e # es) ! i) = code"
        "any_substring m (snd ((e # es) ! i))" "\<forall>j<i. \<not> any_substring m (snd ((e # es) ! j))"
        by blast
      have "i \<noteq> 0" using i(3) False e by (cases i) auto
      then obtain i' where i': "i = Suc i'" by (cases i) auto
      have "\<forall>j<i'. \<not> any_substring m (snd (es ! j))"
      proof (intro allI impI)
        fix j assume "j < i'"
        then have "Suc j < i" using i' by simp
        then have "\<not> any_substring m (snd ((e # es) ! Suc j))" using i(4) by blast
        then show "\<not> any_substring m (snd (es ! j))" by simp
      qed
      then show ?R using i i' by (intro exI [of _ i']) simp
    next
      assume ?R
      then obtain i where i: "i < length es" "fst (es ! i) = code"
        "any_substring m (snd (es ! i))" "\<forall>j<i. \<not> any_substring m (snd (es ! j))"
        by blast
      have "\<forall>j<Suc i. \<not> any_substring m (snd ((e # es) ! j))"
      proof (intro allI impI)
        fix j assume "j < Suc i"
        then show "\<not> any_substring m (snd ((e # es) ! j))"
          using i(4) False e by (cases j) auto
      qed
      then show ?L using i by (intro exI [of _ "Suc i"]) simp
    qed
    then show ?thesis using False e Cons.IH by simp
  qed
qed

lemma first_entry_None_iff:
  "first_entry m es = None \<longleftrightarrow> (\<forall>e\<in>set es. \<not> any_substring m (snd e))"
  by (induction es) (auto split: if_splits)

text \<open>
  Claim C8. Classification walks the table in its declared order (the empty code, then
  \<open>u5\<close>, \<open>wl\<close>, \<open>s3\<close>) and returns the code of the first entry one of whose substrings
  occurs anywhere in the model, compared character by character; \<open>null\<close> and the empty
  model give no code, as does a model in which no substring of any entry occurs. The
  result is a function of the model: \<open>NOTE-NBGL-500\<close>, which contains both \<open>500\<close> and
  \<open>NB\<close>, is always classified under the empty code.
\<close>

theorem getNotecardTypeFromModel_first_match:
  "map fst notecardTypeMap = ['''', ''u5'', ''wl'', ''s3'']
   \<and> getNotecardTypeFromModel None = None
   \<and> getNotecardTypeFromModel (Some []) = None
   \<and> (m \<noteq> [] \<longrightarrow>
        (getNotecardTypeFromModel (Some m) = Some code \<longleftrightarrow>
           (\<exists>i<length notecardTypeMap. fst (notecardTypeMap ! i) = code
              \<and> (\<exists>s\<in>set (snd (notecardTypeMap ! i)). \<exists>pre post. m = pre @ s @ post)
              \<and> (\<forall>j<i. \<forall>s\<in>set (snd (notecardTypeMap ! j)). \<forall>pre post. m \<noteq> pre @ s @ post))))
   \<and> (m \<noteq> [] \<longrightarrow>
        (getNotecardTypeFromModel (Some m) = None \<longleftrightarrow>
           (\<forall>e\<in>set notecardTypeMap. \<forall>s\<in>set (snd e). \<forall>pre post. m \<noteq> pre @ s @ post)))
   \<and> getNotecardTypeFromModel (Some ''NOTE-NBGL-500'') = Some ''''"
proof -
  have order: "map fst notecardTypeMap = ['''', ''u5'', ''wl'', ''s3'']"
    by (simp add: notecardTypeMap_def)
  have null: "getNotecardTypeFromModel None = None"
    by (simp add: getNotecardTypeFromModel_def truthy_def)
  have empty: "getNotecardTypeFromModel (Some []) = None"
    by (simp add: getNotecardTypeFromModel_def truthy_def)
  have some: "getNotecardTypeFromModel (Some m) = Some code \<longleftrightarrow>
           (\<exists>i<length notecardTypeMap. fst (notecardTypeMap ! i) = code
              \<and> (\<exists>s\<in>set (snd (notecardTypeMap ! i)). \<exists>pre post. m = pre @ s @ post)
              \<and> (\<forall>j<i. \<forall>s\<in>set (snd (notecardTypeMap ! j)). \<forall>pre post. m \<noteq> pre @ s @ post))"
    if "m \<noteq> []"
  proof -
    have "getNotecardTypeFromModel (Some m) = first_entry m notecardTypeMap"
      using that by (simp add: getNotecardTypeFromModel_def truthy_def)
    then show ?thesis
      by (simp only: first_entry_Some_iff any_substring_iff includes_str_iff) blast
  qed
  have none: "getNotecardTypeFromModel (Some m) = None \<longleftrightarrow>
           (\<forall>e\<in>set notecardTypeMap. \<forall>s\<in>set (snd e). \<forall>pre post. m \<noteq> pre @ s @ post)"
    if "m \<noteq> []"
  proof -
    have "getNotecardTypeFromModel (Some m) = first_entry m notecardTypeMap"
      using that by (simp add: getNotecardTypeFromModel_def truthy_def)
    then show ?thesis
      by (simp only: first_entry_None_iff any_substring_iff includes_str_iff) blast
  qed
  have ex: "getNotecardTypeFromModel (Some ''NOTE-NBGL-500'') = Some ''''"
    by code_simp
  show ?thesis using order null empty some none ex by blast
qed

theorem getNotecardTypeFromModel_first_match_witness:
  "''NOTE-WBNA'' \<noteq> [] \<and> getNotecardTypeFromModel (Some ''NOTE-WBNA'') = Some ''u5''
   \<and> (\<exists>i<length notecardTypeMap. fst (notecardTypeMap ! i) = ''u5''
        \<and> (\<exists>s\<in>set (snd (notecardTypeMap ! i)). \<exists>pre post. ''NOTE-WBNA'' = pre @ s @ post)
        \<and> (\<forall>j<i. \<forall>s\<in>set (snd (notecardTypeMap ! j)). \<forall>pre post.
              ''NOTE-WBNA'' \<noteq> pre @ s @ post))
   \<and> ''NOTE-XYZ'' \<noteq> [] \<and> getNotecardTypeFromModel (Some ''NOTE-XYZ'') = None
   \<and> \<not> (\<exists>e\<in>set notecardTypeMap. \<exists>s\<in>set (snd e). \<exists>pre post. ''NOTE-XYZ'' = pre @ s @ post)"
proof -
  have w: "getNotecardTypeFromModel (Some ''NOTE-WBNA'') = Some ''u5''" by code_simp
  have x: "getNotecardTypeFromModel (Some ''NOTE-XYZ'') = None" by code_simp
  have nw: "''NOTE-WBNA'' \<noteq> []" and nx: "''NOTE-XYZ'' \<noteq> []" by simp_all
  show ?thesis
    using w x nw nx
      getNotecardTypeFromModel_first_match [of "''NOTE-WBNA''" "''u5''"]
      getNotecardTypeFromModel_first_match [of "''NOTE-XYZ''" "''u5''"]
    by simp
qed

section \<open>The selection loop\<close>

lemma versionRegex_key_nonempty: "versionRegex k = Some v \<Longrightarrow> k \<noteq> []"
  by (cases k) auto

lemma select_loop_snoc:
  "select_loop v (keys @ [key]) = select_step v (select_loop v keys) key"
  by (simp add: select_loop_def)

lemma latest_inv_init: "latest_inv {} \<lparr>selectedKey = None, latestVersion = ''0.0.0.0''\<rparr>"
  by (simp add: latest_inv_def compareVersions_same)

lemma latest_inv_step:
  assumes "latest_inv S st"
  shows "latest_inv (insert key S) (select_step ''latest'' st key)"
proof (cases "versionRegex key")
  case None
  then have "select_step ''latest'' st key = st" by (simp add: select_step_def)
  then show ?thesis using assms None unfolding latest_inv_def by auto
next
  case (Some kv)
  have kv: "kv \<noteq> []" using Some by (rule versionRegex_nonempty)
  let ?lv = "latestVersion st"
  from assms have a: "compareVersions ?lv ''0.0.0.0'' \<ge> 0"
    and b: "\<forall>k\<in>S. \<forall>v. versionRegex k = Some v \<longrightarrow> compareVersions ?lv v \<ge> 0"
    and c: "(selectedKey st = None \<and> ?lv = ''0.0.0.0'')
         \<or> (\<exists>k\<in>S. \<exists>v. selectedKey st = Some k \<and> versionRegex k = Some v
               \<and> compareVersions v ?lv = 0 \<and> compareVersions ?lv ''0.0.0.0'' > 0)"
    unfolding latest_inv_def by blast+
  show ?thesis
  proof (cases "compareVersions kv ?lv > 0")
    case True
    have st': "select_step ''latest'' st key = st\<lparr>latestVersion := kv, selectedKey := Some key\<rparr>"
      using Some kv True by (simp add: select_step_def)
    have a': "compareVersions kv ''0.0.0.0'' > 0"
      using True a by (rule compareVersions_trans_gt1)
    have b': "compareVersions kv v \<ge> 0" if "k \<in> insert key S" "versionRegex k = Some v" for k v
    proof (cases "k = key")
      case True
      then show ?thesis using that Some by (simp add: compareVersions_same)
    next
      case False
      then have "compareVersions ?lv v \<ge> 0" using that b by blast
      with \<open>compareVersions kv ?lv > 0\<close> have "compareVersions kv v > 0"
        by (rule compareVersions_trans_gt1)
      then show ?thesis by simp
    qed
    show ?thesis
      unfolding latest_inv_def st' using a' b' Some by (auto simp: compareVersions_same)
  next
    case False
    have le: "compareVersions ?lv kv \<ge> 0"
      using False by (simp add: compareVersions_flip [of kv ?lv])
    have b': "compareVersions ?lv v \<ge> 0" if "k \<in> insert key S" "versionRegex k = Some v" for k v
      using that b le Some by (cases "k = key") auto
    show ?thesis
    proof (cases "compareVersions kv ?lv = 0 \<and> truthy (selectedKey st)
                     \<and> \<not> endsWith key ''.bin''
                     \<and> selected_endsWith (selectedKey st) ''.dfu''")
      case True
      have st': "select_step ''latest'' st key = st\<lparr>selectedKey := Some key\<rparr>"
        using Some kv False True by (simp add: select_step_def)
      from True have "selectedKey st \<noteq> None" by (auto simp: truthy_def split: option.splits)
      with c have gt: "compareVersions ?lv ''0.0.0.0'' > 0" by auto
      show ?thesis
        unfolding latest_inv_def st' using a b' gt Some True by auto
    next
      case F2: False
      have st': "select_step ''latest'' st key = st"
        using Some kv False F2 by (auto simp add: select_step_def)
      show ?thesis
        unfolding latest_inv_def st' using a b' c by auto
    qed
  qed
qed

lemma latest_inv_foldl:
  "latest_inv S st \<Longrightarrow> latest_inv (S \<union> set keys) (foldl (select_step ''latest'') st keys)"
proof (induction keys arbitrary: S st)
  case Nil
  then show ?case by simp
next
  case (Cons key keys)
  from Cons.prems have "latest_inv (insert key S) (select_step ''latest'' st key)"
    by (rule latest_inv_step)
  then have "latest_inv (insert key S \<union> set keys)
       (foldl (select_step ''latest'') (select_step ''latest'' st key) keys)"
    by (rule Cons.IH)
  then show ?case by simp
qed

lemma latest_inv_select_loop: "latest_inv (set keys) (select_loop ''latest'' keys)"
  using latest_inv_foldl [OF latest_inv_init, of keys] by (simp add: select_loop_def)

lemma specific_inv_step:
  assumes "v \<noteq> ''latest''" and "specific_inv v S st"
  shows "specific_inv v (insert key S) (select_step v st key)"
proof (cases "versionRegex key = Some v")
  case False
  then have "select_step v st key = st"
    using assms(1) by (auto simp: select_step_def split: option.splits)
  then show ?thesis using assms(2) False unfolding specific_inv_def by auto
next
  case True
  have kn: "key \<noteq> []" using True by (rule versionRegex_key_nonempty)
  have vn: "v \<noteq> []" using True by (rule versionRegex_nonempty)
  show ?thesis
  proof (cases "endsWith key ''.bin''")
    case B: True
    have "select_step v st key = st\<lparr>selectedKey := Some key\<rparr>"
      using True vn assms(1) B by (simp add: select_step_def)
    then show ?thesis using True B unfolding specific_inv_def by auto
  next
    case NB: False
    show ?thesis
    proof (cases "selectedKey st")
      case None
      have "select_step v st key = st\<lparr>selectedKey := Some key\<rparr>"
        using True vn assms(1) None by (simp add: select_step_def truthy_def)
      moreover have "\<forall>k\<in>S. versionRegex k \<noteq> Some v"
        using assms(2) None unfolding specific_inv_def by auto
      ultimately show ?thesis using True NB unfolding specific_inv_def by auto
    next
      case (Some k)
      from assms(2) Some have k: "k \<in> S" "versionRegex k = Some v"
        and pref: "endsWith k ''.bin'' \<or> (\<forall>b\<in>S. versionRegex b = Some v \<longrightarrow> \<not> endsWith b ''.bin'')"
        unfolding specific_inv_def by auto
      have "k \<noteq> []" using k(2) by (rule versionRegex_key_nonempty)
      then have "select_step v st key = st"
        using True vn assms(1) Some NB by (simp add: select_step_def truthy_def)
      then show ?thesis using Some k pref NB unfolding specific_inv_def by auto
    qed
  qed
qed

lemma specific_inv_foldl:
  "v \<noteq> ''latest'' \<Longrightarrow> specific_inv v S st \<Longrightarrow>
     specific_inv v (S \<union> set keys) (foldl (select_step v) st keys)"
proof (induction keys arbitrary: S st)
  case Nil
  then show ?case by simp
next
  case (Cons key keys)
  from Cons.prems have "specific_inv v (insert key S) (select_step v st key)"
    by (rule specific_inv_step)
  with Cons.prems(1) have "specific_inv v (insert key S \<union> set keys)
       (foldl (select_step v) (select_step v st key) keys)"
    by (rule Cons.IH)
  then show ?case by simp
qed

lemma specific_inv_select_loop:
  "v \<noteq> ''latest'' \<Longrightarrow> specific_inv v (set keys) (select_loop v keys)"
  using specific_inv_foldl [of v "{}" "\<lparr>selectedKey = None, latestVersion = ''0.0.0.0''\<rparr>" keys]
  by (simp add: select_loop_def specific_inv_def)

section \<open>The decision of findFirmwareUrl\<close>

lemma fetch_text_ok_response: "fetch_text (ok_response xml) = Inr xml"
  by (simp add: fetch_text_def ok_response_def)

lemma relevant_Nil: "relevant t [] = []"
  by (simp add: relevant_def)

lemma findFirmwareUrl_reached:
  assumes "fetch_text f = Inr xml" and "relevant t (extractKeysFromXml xml) = keys"
    and "keys \<noteq> []"
  shows "findFirmwareUrl f u t v cur =
     (if v = ''latest'' \<and> truthy cur
         \<and> (case cur of None \<Rightarrow> False
             | Some c \<Rightarrow> compareVersions c (latestVersion (select_loop v keys)) \<ge> 0)
      then Inr None
      else if v \<noteq> ''latest'' \<and> \<not> truthy (selectedKey (select_loop v keys))
      then Inl (VersionNotFound v t (extractAvailableVersions keys))
      else if v = ''latest'' \<and> \<not> truthy (selectedKey (select_loop v keys))
      then Inl (NoValidVersions t (extractAvailableVersions keys))
      else (case selectedKey (select_loop v keys) of
              None \<Rightarrow> Inl NoKeyDetermined
            | Some k \<Rightarrow> if k = [] then Inl NoKeyDetermined
                        else Inr (Some (firmware_host @ k))))"
proof -
  have "extractKeysFromXml xml \<noteq> []"
    using assms(2,3) relevant_Nil by auto
  then show ?thesis
    using assms unfolding findFirmwareUrl_def by (simp add: Let_def)
qed

lemma findFirmwareUrl_not_reached:
  assumes "fetch_text f = Inr xml" and "relevant t (extractKeysFromXml xml) = []"
  shows "findFirmwareUrl f u t v cur =
     (if extractKeysFromXml xml = [] then Inl (NoFilesForPrefix u) else Inl (NoFilesForType t u))"
  using assms unfolding findFirmwareUrl_def by (simp add: Let_def)

lemma findFirmwareUrl_fetch_failed:
  "fetch_text f = Inl e \<Longrightarrow> findFirmwareUrl f u t v cur = Inl e"
  unfolding findFirmwareUrl_def by simp

text \<open>
  Claim C5. When no key is left after filtering by the hardware-type token, listing the
  versions returns the empty sequence and is no failure, while resolving fails and
  returns neither a URL nor the up-to-date result: with the message that there are no
  files for this hardware type when the listing had keys, and with the message that
  there are no files for the prefix when it had none.
\<close>

theorem empty_filter_list_and_resolve:
  assumes "fetch_text f = Inr xml" and "relevant t (extractKeysFromXml xml) = []"
  shows "listAvailableFirmwareVersions f u t = Inr []
       \<and> (\<exists>e. findFirmwareUrl f u t v cur = Inl e)
       \<and> (extractKeysFromXml xml \<noteq> [] \<longrightarrow>
            findFirmwareUrl f u t v cur = Inl (NoFilesForType t u))
       \<and> (extractKeysFromXml xml = [] \<longrightarrow>
            findFirmwareUrl f u t v cur = Inl (NoFilesForPrefix u))"
proof -
  have "listAvailableFirmwareVersions f u t = Inr []"
    using assms unfolding listAvailableFirmwareVersions_def by (simp add: Let_def)
  then show ?thesis
    using findFirmwareUrl_not_reached [OF assms, of u v cur] by simp
qed


theorem empty_filter_list_and_resolve_witness:
  "fetch_text (ok_response (listing [key_dfu, key_bin])) = Inr (listing [key_dfu, key_bin])
   \<and> extractKeysFromXml (listing [key_dfu, key_bin]) = [key_dfu, key_bin]
   \<and> relevant ''s3'' (extractKeysFromXml (listing [key_dfu, key_bin])) = []
   \<and> listAvailableFirmwareVersions (ok_response (listing [key_dfu, key_bin])) ''LTS'' ''s3''
       = Inr []
   \<and> findFirmwareUrl (ok_response (listing [key_dfu, key_bin])) ''LTS'' ''s3'' ''latest'' None
       = Inl (NoFilesForType ''s3'' ''LTS'')"
proof -
  have f: "fetch_text (ok_response (listing [key_dfu, key_bin])) = Inr (listing [key_dfu, key_bin])"
    by (rule fetch_text_ok_response)
  have k: "extractKeysFromXml (listing [key_dfu, key_bin]) = [key_dfu, key_bin]"
    by code_simp
  have r: "relevant ''s3'' (extractKeysFromXml (listing [key_dfu, key_bin])) = []"
    unfolding k by code_simp
  show ?thesis
    using f k r empty_filter_list_and_resolve [OF f r, of "''LTS''" "''latest''" None]
    by simp
qed

lemma join_contains: "x \<in> set xs \<Longrightarrow> \<exists>pre post. join sep xs = pre @ x @ post"
proof (induction sep xs rule: join.induct)
  case (1 sep)
  then show ?case by simp
next
  case (2 sep y)
  then have "join sep [y] = [] @ x @ []" by simp
  then show ?case by blast
next
  case (3 sep y z zs)
  show ?case
  proof (cases "x = y")
    case True
    then have "join sep (y # z # zs) = [] @ x @ (sep @ join sep (z # zs))" by simp
    then show ?thesis by blast
  next
    case False
    then have "x \<in> set (z # zs)" using "3.prems" by auto
    then obtain pre post where "join sep (z # zs) = pre @ x @ post"
      using "3.IH" by blast
    then have "join sep (y # z # zs) = (y @ sep @ pre) @ x @ post" by simp
    then show ?thesis by blast
  qed
qed

lemma join_nonempty: "xs \<noteq> [] \<Longrightarrow> \<forall>x\<in>set xs. x \<noteq> [] \<Longrightarrow> join sep xs \<noteq> []"
  by (induction sep xs rule: join.induct) auto

lemma extractAvailableVersions_nonempty_elems:
  "\<forall>w\<in>set (extractAvailableVersions keys). w \<noteq> []"
  by (auto simp: extractAvailableVersions_set dest: versionRegex_nonempty)

lemma includes_str_append: "includes_str b x \<Longrightarrow> includes_str (a @ b @ c) x"
proof -
  assume "includes_str b x"
  then obtain pre post where "b = pre @ x @ post" using includes_str_iff by blast
  then have "a @ b @ c = (a @ pre) @ x @ (post @ c)" by simp
  then show ?thesis using includes_str_iff by blast
qed

text \<open>
  Claim C6. When a specific version is requested and no key left by the hardware-type
  filter carries that version, resolving fails with the version-not-found error and
  returns no URL; the error carries the versions extracted from the filtered keys, and
  its message ends with them, joined by commas, after \<open>Available: \<close> (or with \<open>None\<close>
  when no filtered key has a version), so that every version some filtered key
  encodes occurs in the message.
\<close>

theorem specific_version_not_found:
  assumes "fetch_text f = Inr xml" and "relevant t (extractKeysFromXml xml) = keys"
    and "keys \<noteq> []" and "v \<noteq> ''latest''"
    and "\<forall>k\<in>set keys. versionRegex k \<noteq> Some v"
  shows "findFirmwareUrl f u t v cur = Inl (VersionNotFound v t (extractAvailableVersions keys))
       \<and> set (extractAvailableVersions keys) = {w. \<exists>k\<in>set keys. versionRegex k = Some w}
       \<and> message (VersionNotFound v t (extractAvailableVersions keys)) =
           ''Firmware version '' @ quoted v @ '' not found for Notecard type '' @ quoted t
             @ ''. Available: ''
             @ (if extractAvailableVersions keys = [] then ''None''
                else join '', '' (extractAvailableVersions keys))
       \<and> (\<forall>k\<in>set keys. \<forall>w. versionRegex k = Some w \<longrightarrow>
             includes_str (message (VersionNotFound v t (extractAvailableVersions keys))) w)"
proof -
  let ?av = "extractAvailableVersions keys"
  have "specific_inv v (set keys) (select_loop v keys)"
    using assms(4) by (rule specific_inv_select_loop)
  then have none: "selectedKey (select_loop v keys) = None"
    using assms(5) unfolding specific_inv_def by auto
  have res: "findFirmwareUrl f u t v cur = Inl (VersionNotFound v t ?av)"
    using findFirmwareUrl_reached [OF assms(1-3), of u v cur] assms(4) none
    by (simp add: truthy_def)
  have jn: "join '', '' ?av \<noteq> [] \<longleftrightarrow> ?av \<noteq> []"
    using join_nonempty [of ?av "'', ''"] extractAvailableVersions_nonempty_elems [of keys]
    by auto
  have msg: "message (VersionNotFound v t ?av) =
           ''Firmware version '' @ quoted v @ '' not found for Notecard type '' @ quoted t
             @ ''. Available: '' @ (if ?av = [] then ''None'' else join '', '' ?av)"
    using jn by simp
  have occ: "includes_str (message (VersionNotFound v t ?av)) w"
    if "k \<in> set keys" "versionRegex k = Some w" for k w
  proof -
    have w: "w \<in> set ?av" using that by (auto simp: extractAvailableVersions_set)
    then have ne: "?av \<noteq> []" by auto
    from w have "includes_str (join '', '' ?av) w"
      using join_contains [of w ?av "'', ''"] includes_str_iff by blast
    then have "includes_str ((''Firmware version '' @ quoted v
        @ '' not found for Notecard type '' @ quoted t @ ''. Available: '')
        @ join '', '' ?av @ []) w"
      by (rule includes_str_append)
    then show ?thesis using msg ne by simp
  qed
  show ?thesis using res msg occ extractAvailableVersions_set [of keys] by blast
qed

theorem specific_version_not_found_witness:
  "fetch_text (ok_response (listing [key_dfu, key_bin])) = Inr (listing [key_dfu, key_bin])
   \<and> relevant ''u5'' (extractKeysFromXml (listing [key_dfu, key_bin])) = [key_dfu, key_bin]
   \<and> [key_dfu, key_bin] \<noteq> [] \<and> ''9.9.9.9'' \<noteq> ''latest''
   \<and> versionRegex key_dfu \<noteq> Some ''9.9.9.9'' \<and> versionRegex key_bin \<noteq> Some ''9.9.9.9''
   \<and> extractAvailableVersions [key_dfu, key_bin] = [''6.2.5.16868'']
   \<and> findFirmwareUrl (ok_response (listing [key_dfu, key_bin])) ''LTS'' ''u5'' ''9.9.9.9''
        (Some ''6.2.5.9'')
       = Inl (VersionNotFound ''9.9.9.9'' ''u5'' [''6.2.5.16868''])
   \<and> message (VersionNotFound ''9.9.9.9'' ''u5'' [''6.2.5.16868'']) =
       ''Firmware version '' @ quoted ''9.9.9.9'' @ '' not found for Notecard type ''
         @ quoted ''u5'' @ ''. Available: 6.2.5.16868''"
proof -
  have f: "fetch_text (ok_response (listing [key_dfu, key_bin])) = Inr (listing [key_dfu, key_bin])"
    by (rule fetch_text_ok_response)
  have k: "extractKeysFromXml (listing [key_dfu, key_bin]) = [key_dfu, key_bin]"
    by code_simp
  have r: "relevant ''u5'' (extractKeysFromXml (listing [key_dfu, key_bin])) = [key_dfu, key_bin]"
    unfolding k by code_simp
  have n: "[key_dfu, key_bin] \<noteq> []" by simp
  have l: "''9.9.9.9'' \<noteq> ''latest''" by simp
  have vd: "versionRegex key_dfu = Some ''6.2.5.16868''" by code_simp
  have vb: "versionRegex key_bin = Some ''6.2.5.16868''" by code_simp
  have m: "\<forall>k\<in>set [key_dfu, key_bin]. versionRegex k \<noteq> Some ''9.9.9.9''"
    using vd vb by simp
  have a: "extractAvailableVersions [key_dfu, key_bin] = [''6.2.5.16868'']" by code_simp
  show ?thesis
    using f r n l vd vb a
      specific_version_not_found [OF f r n l m, of "''LTS''" "Some ''6.2.5.9''"]
    by simp
qed

section \<open>Evaluation of the example listings\<close>

lemma keys_dfu_bin: "extractKeysFromXml (listing [key_dfu, key_bin]) = [key_dfu, key_bin]"
  by code_simp

lemma keys_bin_dfu: "extractKeysFromXml (listing [key_bin, key_dfu]) = [key_bin, key_dfu]"
  by code_simp

lemma relevant_key_dfu: "includes_str key_dfu (''-'' @ ''u5'' @ ''-'')"
  by code_simp

lemma relevant_key_bin: "includes_str key_bin (''-'' @ ''u5'' @ ''-'')"
  by code_simp

lemma relevant_dfu_bin:
  "relevant ''u5'' (extractKeysFromXml (listing [key_dfu, key_bin])) = [key_dfu, key_bin]"
  by (simp only: keys_dfu_bin relevant_def filter.simps relevant_key_dfu relevant_key_bin if_True)

lemma relevant_bin_dfu:
  "relevant ''u5'' (extractKeysFromXml (listing [key_bin, key_dfu])) = [key_bin, key_dfu]"
  by (simp only: keys_bin_dfu relevant_def filter.simps relevant_key_dfu relevant_key_bin if_True)

lemma version_key_dfu: "versionRegex key_dfu = Some ''6.2.5.16868''"
  by code_simp

lemma version_key_bin: "versionRegex key_bin = Some ''6.2.5.16868''"
  by code_simp

lemma key_bin_endsWith: "endsWith key_bin ''.bin''" "\<not> endsWith key_bin ''.dfu''"
  by code_simp+

lemma key_dfu_endsWith: "endsWith key_dfu ''.dfu''" "\<not> endsWith key_dfu ''.bin''"
  by code_simp+

lemma key_nonempty: "key_bin \<noteq> []" "key_dfu \<noteq> []"
  by code_simp+

lemma latest_first_dfu:
  "select_step ''latest'' \<lparr>selectedKey = None, latestVersion = ''0.0.0.0''\<rparr> key_dfu
     = \<lparr>selectedKey = Some key_dfu, latestVersion = ''6.2.5.16868''\<rparr>"
  by (simp add: select_step_def version_key_dfu release_above_initial)

lemma latest_first_bin:
  "select_step ''latest'' \<lparr>selectedKey = None, latestVersion = ''0.0.0.0''\<rparr> key_bin
     = \<lparr>selectedKey = Some key_bin, latestVersion = ''6.2.5.16868''\<rparr>"
  by (simp add: select_step_def version_key_bin release_above_initial)

lemma latest_dfu_then_bin:
  "select_step ''latest'' \<lparr>selectedKey = Some key_dfu, latestVersion = ''6.2.5.16868''\<rparr> key_bin
     = \<lparr>selectedKey = Some key_dfu, latestVersion = ''6.2.5.16868''\<rparr>"
  by (simp add: select_step_def version_key_bin compareVersions_same key_bin_endsWith)

lemma latest_bin_then_dfu:
  "select_step ''latest'' \<lparr>selectedKey = Some key_bin, latestVersion = ''6.2.5.16868''\<rparr> key_dfu
     = \<lparr>selectedKey = Some key_bin, latestVersion = ''6.2.5.16868''\<rparr>"
  by (simp add: select_step_def version_key_dfu compareVersions_same selected_endsWith_def
      key_bin_endsWith)

lemma select_loop_latest_dfu_bin:
  "select_loop ''latest'' [key_dfu, key_bin]
     = \<lparr>selectedKey = Some key_dfu, latestVersion = ''6.2.5.16868''\<rparr>"
  by (simp only: select_loop_def foldl.simps latest_first_dfu latest_dfu_then_bin)

lemma select_loop_latest_bin_dfu:
  "select_loop ''latest'' [key_bin, key_dfu]
     = \<lparr>selectedKey = Some key_bin, latestVersion = ''6.2.5.16868''\<rparr>"
  by (simp only: select_loop_def foldl.simps latest_first_bin latest_bin_then_dfu)

lemma specific_first_dfu:
  "select_step ''6.2.5.16868'' \<lparr>selectedKey = None, latestVersion = ''0.0.0.0''\<rparr> key_dfu
     = \<lparr>selectedKey = Some key_dfu, latestVersion = ''0.0.0.0''\<rparr>"
  by (simp add: select_step_def version_key_dfu truthy_def)

lemma specific_first_bin:
  "select_step ''6.2.5.16868'' \<lparr>selectedKey = None, latestVersion = ''0.0.0.0''\<rparr> key_bin
     = \<lparr>selectedKey = Some key_bin, latestVersion = ''0.0.0.0''\<rparr>"
  by (simp add: select_step_def version_key_bin truthy_def)

lemma select_loop_specific_dfu: "select_loop ''6.2.5.16868'' [key_dfu]
     = \<lparr>selectedKey = Some key_dfu, latestVersion = ''0.0.0.0''\<rparr>"
  by (simp only: select_loop_def foldl.simps specific_first_dfu)

lemma select_loop_specific_bin: "select_loop ''6.2.5.16868'' [key_bin]
     = \<lparr>selectedKey = Some key_bin, latestVersion = ''0.0.0.0''\<rparr>"
  by (simp only: select_loop_def foldl.simps specific_first_bin)

lemma select_loop_specific_found:
  assumes "v \<noteq> ''latest''" and "\<exists>k\<in>set keys. versionRegex k = Some v"
  shows "\<exists>k\<in>set keys. versionRegex k = Some v \<and> k \<noteq> []
           \<and> selectedKey (select_loop v keys) = Some k"
proof -
  have "specific_inv v (set keys) (select_loop v keys)"
    using assms(1) by (rule specific_inv_select_loop)
  then obtain k where "k \<in> set keys" "selectedKey (select_loop v keys) = Some k"
    "versionRegex k = Some v"
    using assms(2) unfolding specific_inv_def by auto
  then show ?thesis using versionRegex_key_nonempty by blast
qed

lemma findFirmwareUrl_up_to_date_iff:
  "findFirmwareUrl f u t v cur = Inr None \<longleftrightarrow>
     (\<exists>xml c. fetch_text f = Inr xml \<and> relevant t (extractKeysFromXml xml) \<noteq> []
        \<and> v = ''latest'' \<and> cur = Some c \<and> c \<noteq> []
        \<and> compareVersions c
             (latestVersion (select_loop ''latest'' (relevant t (extractKeysFromXml xml)))) \<ge> 0)"
proof (cases "fetch_text f")
  case (Inl e)
  then show ?thesis using findFirmwareUrl_fetch_failed [OF Inl, of u t v cur] by simp
next
  case (Inr xml)
  show ?thesis
  proof (cases "relevant t (extractKeysFromXml xml) = []")
    case True
    then show ?thesis
      using findFirmwareUrl_not_reached [OF Inr True, of u v cur] Inr by simp
  next
    case False
    show ?thesis
      using findFirmwareUrl_reached [OF Inr refl False, of u v cur] Inr False
      by (auto simp: truthy_def split: option.splits if_splits)
  qed
qed

text \<open>
  Claim C2. Resolving returns the up-to-date result (no URL) exactly when the scan was
  reached, \<open>latest\<close> was requested, a current version is present, and it compares
  greater than or equal to the latest version the scan found. When a specific version
  is requested and a filtered key carries it, a key carrying it is selected and its URL
  returned, whatever the current version is, also one that compares greater than or
  equal to the requested version.
\<close>

theorem up_to_date_only_for_latest:
  "(findFirmwareUrl f u t v cur = Inr None \<longleftrightarrow>
      (\<exists>xml c. fetch_text f = Inr xml \<and> relevant t (extractKeysFromXml xml) \<noteq> []
         \<and> v = ''latest'' \<and> cur = Some c \<and> c \<noteq> []
         \<and> compareVersions c
              (latestVersion (select_loop ''latest'' (relevant t (extractKeysFromXml xml)))) \<ge> 0))
   \<and> (v \<noteq> ''latest'' \<and> fetch_text f = Inr xml
        \<and> (\<exists>k\<in>set (relevant t (extractKeysFromXml xml)). versionRegex k = Some v)
      \<longrightarrow> (\<exists>k\<in>set (relevant t (extractKeysFromXml xml)). versionRegex k = Some v
             \<and> findFirmwareUrl f u t v cur = Inr (Some (firmware_host @ k))))"
proof -
  have second: "\<exists>k\<in>set (relevant t (extractKeysFromXml xml)). versionRegex k = Some v
             \<and> findFirmwareUrl f u t v cur = Inr (Some (firmware_host @ k))"
    if v: "v \<noteq> ''latest''" and f: "fetch_text f = Inr xml"
      and ex: "\<exists>k\<in>set (relevant t (extractKeysFromXml xml)). versionRegex k = Some v"
  proof -
    let ?keys = "relevant t (extractKeysFromXml xml)"
    have ne: "?keys \<noteq> []" using ex by auto
    obtain k where k: "k \<in> set ?keys" "versionRegex k = Some v" "k \<noteq> []"
      "selectedKey (select_loop v ?keys) = Some k"
      using select_loop_specific_found [OF v ex] by blast
    have "findFirmwareUrl f u t v cur = Inr (Some (firmware_host @ k))"
      using findFirmwareUrl_reached [OF f refl ne, of u v cur] v k
      by (simp add: truthy_def)
    then show ?thesis using k by blast
  qed
  show ?thesis using findFirmwareUrl_up_to_date_iff [of f u t v cur] second by blast
qed

theorem up_to_date_only_for_latest_witness:
  "findFirmwareUrl (ok_response (listing [key_dfu, key_bin])) ''LTS'' ''u5'' ''latest''
      (Some ''6.2.5.16868'') = Inr None
   \<and> (\<exists>xml c. fetch_text (ok_response (listing [key_dfu, key_bin])) = Inr xml
         \<and> relevant ''u5'' (extractKeysFromXml xml) \<noteq> []
         \<and> Some ''6.2.5.16868'' = Some c \<and> c \<noteq> []
         \<and> compareVersions c
              (latestVersion (select_loop ''latest'' (relevant ''u5'' (extractKeysFromXml xml)))) \<ge> 0)
   \<and> ''6.2.5.16868'' \<noteq> ''latest''
   \<and> fetch_text (ok_response (listing [key_dfu, key_bin])) = Inr (listing [key_dfu, key_bin])
   \<and> compareVersions ''7.0.0.0'' ''6.2.5.16868'' \<ge> 0
   \<and> (\<exists>k\<in>set (relevant ''u5'' (extractKeysFromXml (listing [key_dfu, key_bin]))).
         versionRegex k = Some ''6.2.5.16868''
         \<and> findFirmwareUrl (ok_response (listing [key_dfu, key_bin])) ''LTS'' ''u5''
              ''6.2.5.16868'' (Some ''7.0.0.0'') = Inr (Some (firmware_host @ k)))"
proof -
  let ?f = "ok_response (listing [key_dfu, key_bin])"
  have f: "fetch_text ?f = Inr (listing [key_dfu, key_bin])"
    by (rule fetch_text_ok_response)
  have l: "''6.2.5.16868'' \<noteq> ''latest''" by simp
  have ex: "\<exists>k\<in>set (relevant ''u5'' (extractKeysFromXml (listing [key_dfu, key_bin]))).
      versionRegex k = Some ''6.2.5.16868''"
    unfolding relevant_dfu_bin using version_key_dfu by simp
  have c: "compareVersions ''7.0.0.0'' ''6.2.5.16868'' \<ge> 0"
    by (simp add: compareVersions_def parts_seven parts_release Let_def upt_rec part_at_def
        less_jsval_def)
  have lv: "compareVersions ''6.2.5.16868''
      (latestVersion (select_loop ''latest'' [key_dfu, key_bin])) \<ge> 0"
    by (simp add: select_loop_latest_dfu_bin compareVersions_same)
  have rhs: "\<exists>xml c. fetch_text ?f = Inr xml
         \<and> relevant ''u5'' (extractKeysFromXml xml) \<noteq> []
         \<and> ''latest'' = ''latest'' \<and> Some ''6.2.5.16868'' = Some c \<and> c \<noteq> []
         \<and> compareVersions c
              (latestVersion (select_loop ''latest'' (relevant ''u5'' (extractKeysFromXml xml)))) \<ge> 0"
    using f lv by (intro exI [of _ "listing [key_dfu, key_bin]"] exI [of _ "''6.2.5.16868''"])
      (simp add: relevant_dfu_bin)
  have up: "findFirmwareUrl ?f ''LTS'' ''u5'' ''latest'' (Some ''6.2.5.16868'') = Inr None"
    using rhs up_to_date_only_for_latest [of ?f "''LTS''" "''u5''" "''latest''"
        "Some ''6.2.5.16868''"]
    by (simp only:)
  have sel: "\<exists>k\<in>set (relevant ''u5'' (extractKeysFromXml (listing [key_dfu, key_bin]))).
         versionRegex k = Some ''6.2.5.16868''
         \<and> findFirmwareUrl ?f ''LTS'' ''u5'' ''6.2.5.16868'' (Some ''7.0.0.0'')
              = Inr (Some (firmware_host @ k))"
    using l f ex conjunct2 [OF up_to_date_only_for_latest [of ?f "''LTS''" "''u5''"
        "''6.2.5.16868''" "Some ''7.0.0.0''" "listing [key_dfu, key_bin]"]]
    by (simp only: simp_thms)
  have rhs': "\<exists>xml c. fetch_text ?f = Inr xml
         \<and> relevant ''u5'' (extractKeysFromXml xml) \<noteq> []
         \<and> Some ''6.2.5.16868'' = Some c \<and> c \<noteq> []
         \<and> compareVersions c
              (latestVersion (select_loop ''latest'' (relevant ''u5'' (extractKeysFromXml xml)))) \<ge> 0"
    using rhs by simp
  show ?thesis
    using up rhs' l f c sel by (intro conjI)
qed

section \<open>The tie-break for a requested version\<close>

lemma endsWith_same_length:
  "endsWith s a \<Longrightarrow> endsWith s b \<Longrightarrow> length a = length b \<Longrightarrow> a = b"
  by (auto simp: endsWith_def)

lemma endsWith_dfu_not_bin: "endsWith k ''.dfu'' \<Longrightarrow> \<not> endsWith k ''.bin''"
  using endsWith_same_length [of k "''.dfu''" "''.bin''"] by auto

lemma endsWith_nonempty: "endsWith k (c # t) \<Longrightarrow> k \<noteq> []"
  by (auto simp: endsWith_def)

lemma select_step_specific_bin:
  assumes "v \<noteq> ''latest''" and "versionRegex key = Some v" and "endsWith key ''.bin''"
  shows "selectedKey (select_step v st key) = Some key"
  using assms versionRegex_nonempty [OF assms(2)] by (simp add: select_step_def)

lemma select_step_specific_keep:
  assumes "v \<noteq> ''latest''" and "selectedKey st = Some b" and "b \<noteq> []"
    and "\<not> endsWith key ''.bin''"
  shows "select_step v st key = st"
  using assms by (simp add: select_step_def truthy_def split: option.splits)

lemma foldl_specific_keep:
  assumes "v \<noteq> ''latest''" and "selectedKey st = Some b" and "b \<noteq> []"
    and "\<forall>k\<in>set post. \<not> endsWith k ''.bin''"
  shows "foldl (select_step v) st post = st"
  using assms(4)
proof (induction post)
  case Nil
  show ?case by simp
next
  case (Cons k post)
  have "select_step v st k = st"
    using assms(1-3) Cons.prems by (intro select_step_specific_keep) auto
  then show ?case using Cons by simp
qed

text \<open>
  Claim C3. For a requested version \<open>v\<close> the selection over the scanned keys is
  asymmetric. A key carrying \<open>v\<close> that ends with \<open>.bin\<close> replaces a selected key that
  ends with \<open>.dfu\<close>: after it is scanned, it is the selected key. Keys ending with
  \<open>.dfu\<close> never replace a selected key that ends with \<open>.bin\<close>: however many of them
  follow, the selection stays.
\<close>

theorem specific_version_tie_break:
  assumes "v \<noteq> ''latest''"
  shows "(versionRegex key = Some v \<and> endsWith key ''.bin''
          \<and> selectedKey (select_loop v pre) = Some d \<and> endsWith d ''.dfu''
        \<longrightarrow> selectedKey (select_loop v (pre @ [key])) = Some key)
       \<and> (selectedKey (select_loop v pre) = Some b \<and> endsWith b ''.bin''
          \<and> (\<forall>k\<in>set post. endsWith k ''.dfu'')
        \<longrightarrow> selectedKey (select_loop v (pre @ post)) = Some b)"
proof (intro conjI impI)
  assume "versionRegex key = Some v \<and> endsWith key ''.bin''
          \<and> selectedKey (select_loop v pre) = Some d \<and> endsWith d ''.dfu''"
  then show "selectedKey (select_loop v (pre @ [key])) = Some key"
    using assms by (simp add: select_loop_snoc select_step_specific_bin)
next
  assume h: "selectedKey (select_loop v pre) = Some b \<and> endsWith b ''.bin''
          \<and> (\<forall>k\<in>set post. endsWith k ''.dfu'')"
  then have "b \<noteq> []" using endsWith_nonempty by blast
  moreover have "\<forall>k\<in>set post. \<not> endsWith k ''.bin''"
    using h endsWith_dfu_not_bin by blast
  ultimately have "foldl (select_step v) (select_loop v pre) post = select_loop v pre"
    using assms h by (intro foldl_specific_keep [where b = b]) auto
  then have "select_loop v (pre @ post) = select_loop v pre"
    by (simp add: select_loop_def)
  then show "selectedKey (select_loop v (pre @ post)) = Some b" using h by simp
qed

theorem specific_version_tie_break_witness:
  "''6.2.5.16868'' \<noteq> ''latest''
   \<and> versionRegex key_bin = Some ''6.2.5.16868'' \<and> endsWith key_bin ''.bin''
   \<and> selectedKey (select_loop ''6.2.5.16868'' [key_dfu]) = Some key_dfu
   \<and> endsWith key_dfu ''.dfu''
   \<and> selectedKey (select_loop ''6.2.5.16868'' ([key_dfu] @ [key_bin])) = Some key_bin
   \<and> selectedKey (select_loop ''6.2.5.16868'' [key_bin]) = Some key_bin
   \<and> selectedKey (select_loop ''6.2.5.16868'' ([key_bin] @ [key_dfu])) = Some key_bin"
proof -
  have l: "''6.2.5.16868'' \<noteq> ''latest''" by simp
  have d: "selectedKey (select_loop ''6.2.5.16868'' [key_dfu]) = Some key_dfu"
    by (simp add: select_loop_specific_dfu)
  have b: "selectedKey (select_loop ''6.2.5.16868'' [key_bin]) = Some key_bin"
    by (simp add: select_loop_specific_bin)
  have p: "\<forall>k\<in>set [key_dfu]. endsWith k ''.dfu''"
    by (simp add: key_dfu_endsWith)
  have one: "selectedKey (select_loop ''6.2.5.16868'' ([key_dfu] @ [key_bin])) = Some key_bin"
    using version_key_bin key_bin_endsWith(1) d key_dfu_endsWith(1)
      conjunct1 [OF specific_version_tie_break
        [OF l, where key = key_bin and pre = "[key_dfu]" and d = key_dfu]]
    by (simp only: simp_thms)
  have two: "selectedKey (select_loop ''6.2.5.16868'' ([key_bin] @ [key_dfu])) = Some key_bin"
    using b key_bin_endsWith(1) p
      conjunct2 [OF specific_version_tie_break
        [OF l, where pre = "[key_bin]" and b = key_bin and post = "[key_dfu]"]]
    by (simp only: simp_thms)
  show ?thesis
    using l version_key_bin key_bin_endsWith(1) d key_dfu_endsWith(1) one b two
    by (intro conjI)
qed

section \<open>A request of latest\<close>

lemma wf_version_nonempty: "wf_version c \<Longrightarrow> c \<noteq> []"
  by (auto simp: wf_version_def)

lemma component_initial: "component ''0.0.0.0'' i = Finite 0"
proof -
  have "i = 0 \<or> i = 1 \<or> i = 2 \<or> i = 3 \<or> 4 \<le> i" by arith
  then show ?thesis
    by (auto simp: component_def part_at_def parts_initial)
qed

lemma compareVersions_ge_initial:
  assumes "wf_version c"
  shows "compareVersions c ''0.0.0.0'' \<ge> 0"
proof -
  have "Finite 0 \<le> component c i" for i
    using component_wf [OF assms, of i] to_double_nonneg by simp
  then have "\<not> (\<exists>i. component c i < component ''0.0.0.0'' i
      \<and> (\<forall>j<i. component c j = component ''0.0.0.0'' j))"
    by (simp add: component_initial not_less)
  then have "compareVersions c ''0.0.0.0'' \<noteq> - 1"
    using compareVersions_minus_one_iff [of c "''0.0.0.0''"] by simp
  then show ?thesis using compareVersions_values [of c "''0.0.0.0''"] by auto
qed

lemma select_step_no_version: "versionRegex key = None \<Longrightarrow> select_step v st key = st"
  by (simp add: select_step_def)

lemma foldl_no_version:
  "\<forall>k\<in>set keys. versionRegex k = None \<Longrightarrow> foldl (select_step v) st keys = st"
  by (induction keys) (simp_all add: select_step_no_version)

lemma select_loop_no_version:
  "\<forall>k\<in>set keys. versionRegex k = None \<Longrightarrow>
     select_loop v keys = \<lparr>selectedKey = None, latestVersion = ''0.0.0.0''\<rparr>"
  by (simp add: select_loop_def foldl_no_version)

lemma extractAvailableVersions_no_version:
  "\<forall>k\<in>set keys. versionRegex k = None \<Longrightarrow> extractAvailableVersions keys = []"
  using extractAvailableVersions_set [of keys] by auto

lemma fetch_text_Inl: "fetch_text g = Inl e \<Longrightarrow> \<exists>m. e = FetchError m"
  by (auto simp: fetch_text_def split: fetched.splits if_splits)

lemma latest_never_no_valid_versions:
  assumes "wf_version c"
  shows "findFirmwareUrl g u t ''latest'' (Some c) \<noteq> Inl (NoValidVersions a b)"
proof (cases "fetch_text g")
  case (Inl e)
  then show ?thesis
    using findFirmwareUrl_fetch_failed [OF Inl, of u t "''latest''" "Some c"] fetch_text_Inl [OF Inl]
    by auto
next
  case (Inr xml)
  show ?thesis
  proof (cases "relevant t (extractKeysFromXml xml) = []")
    case True
    then show ?thesis
      using findFirmwareUrl_not_reached [OF Inr True, of u "''latest''" "Some c"] by simp
  next
    case False
    let ?st = "select_loop ''latest'' (relevant t (extractKeysFromXml xml))"
    have inv: "latest_inv (set (relevant t (extractKeysFromXml xml))) ?st"
      by (rule latest_inv_select_loop)
    have cn: "truthy (Some c)" using wf_version_nonempty [OF assms] by (simp add: truthy_def)
    show ?thesis
    proof (cases "selectedKey ?st")
      case None
      then have "latestVersion ?st = ''0.0.0.0''" using inv unfolding latest_inv_def by auto
      then have "compareVersions c (latestVersion ?st) \<ge> 0"
        using compareVersions_ge_initial [OF assms] by simp
      then have "findFirmwareUrl g u t ''latest'' (Some c) = Inr None"
        using findFirmwareUrl_reached [OF Inr refl False, of u "''latest''" "Some c"] cn by simp
      then show ?thesis by simp
    next
      case (Some k)
      then have "versionRegex k \<noteq> None" using inv unfolding latest_inv_def by auto
      then have "k \<noteq> []" using versionRegex_key_nonempty by auto
      then have "truthy (selectedKey ?st)" using Some by (simp add: truthy_def)
      then show ?thesis
        using findFirmwareUrl_reached [OF Inr refl False, of u "''latest''" "Some c"] Some
        by (auto split: if_splits)
    qed
  qed
qed

text \<open>
  Claim C10, amended. With \<open>latest\<close> requested and a well-formed current version
  (non-empty runs of digits separated by dots), if keys are left by the hardware-type
  filter but none of them carries a version, the result is the up-to-date one and not
  the no-valid-versions error: the tracked latest version is still the initial
  \<open>0.0.0.0\<close>, the current version compares greater than or equal to it, and the
  up-to-date test comes first. That error is returned for the same listing when no
  current version is given, and for no listing at all when a well-formed current
  version is given.
\<close>

theorem no_valid_versions_masked_by_up_to_date:
  assumes "fetch_text f = Inr xml" and "relevant t (extractKeysFromXml xml) = keys"
    and "keys \<noteq> []" and "\<forall>k\<in>set keys. versionRegex k = None" and "wf_version c"
  shows "latestVersion (select_loop ''latest'' keys) = ''0.0.0.0''
       \<and> selectedKey (select_loop ''latest'' keys) = None
       \<and> compareVersions c ''0.0.0.0'' \<ge> 0
       \<and> findFirmwareUrl f u t ''latest'' (Some c) = Inr None
       \<and> findFirmwareUrl f u t ''latest'' None = Inl (NoValidVersions t [])
       \<and> findFirmwareUrl g u' t' ''latest'' (Some c) \<noteq> Inl (NoValidVersions a b)"
proof -
  have st: "select_loop ''latest'' keys = \<lparr>selectedKey = None, latestVersion = ''0.0.0.0''\<rparr>"
    using assms(4) by (rule select_loop_no_version)
  have ge: "compareVersions c ''0.0.0.0'' \<ge> 0"
    using assms(5) by (rule compareVersions_ge_initial)
  have cn: "truthy (Some c)"
    using wf_version_nonempty [OF assms(5)] by (simp add: truthy_def)
  have up: "findFirmwareUrl f u t ''latest'' (Some c) = Inr None"
    using findFirmwareUrl_reached [OF assms(1-3), of u "''latest''" "Some c"] st ge cn by simp
  have err: "findFirmwareUrl f u t ''latest'' None = Inl (NoValidVersions t [])"
    using findFirmwareUrl_reached [OF assms(1-3), of u "''latest''" None] st
      extractAvailableVersions_no_version [OF assms(4)]
    by (simp add: truthy_def)
  show ?thesis
    using st ge up err latest_never_no_valid_versions [OF assms(5)] by simp
qed

lemma keys_readme: "extractKeysFromXml (listing [key_readme]) = [key_readme]"
  by code_simp

lemma relevant_key_readme: "includes_str key_readme (''-'' @ ''u5'' @ ''-'')"
  by code_simp

lemma relevant_readme: "relevant ''u5'' (extractKeysFromXml (listing [key_readme])) = [key_readme]"
  by (simp only: keys_readme relevant_def filter.simps relevant_key_readme if_True)

lemma version_key_readme: "versionRegex key_readme = None"
  by code_simp

theorem no_valid_versions_masked_by_up_to_date_witness:
  "fetch_text (ok_response (listing [key_readme])) = Inr (listing [key_readme])
   \<and> relevant ''u5'' (extractKeysFromXml (listing [key_readme])) = [key_readme]
   \<and> [key_readme] \<noteq> [] \<and> versionRegex key_readme = None
   \<and> wf_version ''6.2.5.9''
   \<and> findFirmwareUrl (ok_response (listing [key_readme])) ''LTS'' ''u5'' ''latest''
        (Some ''6.2.5.9'') = Inr None
   \<and> findFirmwareUrl (ok_response (listing [key_readme])) ''LTS'' ''u5'' ''latest'' None
        = Inl (NoValidVersions ''u5'' [])"
proof -
  have f: "fetch_text (ok_response (listing [key_readme])) = Inr (listing [key_readme])"
    by (rule fetch_text_ok_response)
  have n: "[key_readme] \<noteq> []" by simp
  have nv: "\<forall>k\<in>set [key_readme]. versionRegex k = None"
    by (simp add: version_key_readme)
  have w: "wf_version ''6.2.5.9''" by code_simp
  show ?thesis
    using f relevant_readme n version_key_readme w
      no_valid_versions_masked_by_up_to_date [OF f relevant_readme n nv w,
        of "''LTS''" "ok_response (listing [key_readme])" "''LTS''" "''u5''" "''u5''" "[]"]
    by (simp only: simp_thms)
qed

text \<open>
  Claim C10 as stated, for every current version that is not \<open>null\<close>, fails for the
  empty string, which the up-to-date test takes for absent, and for a current version
  that compares below \<open>0.0.0.0\<close>: both give the no-valid-versions error.
\<close>

theorem no_valid_versions_masked_by_up_to_date_counterexample:
  "relevant ''u5'' (extractKeysFromXml (listing [key_readme])) = [key_readme]
   \<and> versionRegex key_readme = None
   \<and> findFirmwareUrl (ok_response (listing [key_readme])) ''LTS'' ''u5'' ''latest'' (Some [])
       = Inl (NoValidVersions ''u5'' [])
   \<and> compareVersions ''-1.0.0.0'' ''0.0.0.0'' = - 1
   \<and> findFirmwareUrl (ok_response (listing [key_readme])) ''LTS'' ''u5'' ''latest''
        (Some ''-1.0.0.0'') = Inl (NoValidVersions ''u5'' [])"
proof -
  have f: "fetch_text (ok_response (listing [key_readme])) = Inr (listing [key_readme])"
    by (rule fetch_text_ok_response)
  have n: "[key_readme] \<noteq> []" by simp
  have nv: "\<forall>k\<in>set [key_readme]. versionRegex k = None"
    by (simp add: version_key_readme)
  have st: "select_loop ''latest'' [key_readme]
      = \<lparr>selectedKey = None, latestVersion = ''0.0.0.0''\<rparr>"
    using nv by (rule select_loop_no_version)
  have av: "extractAvailableVersions [key_readme] = []"
    using nv by (rule extractAvailableVersions_no_version)
  have e: "findFirmwareUrl (ok_response (listing [key_readme])) ''LTS'' ''u5'' ''latest'' (Some [])
       = Inl (NoValidVersions ''u5'' [])"
    using findFirmwareUrl_reached [OF f relevant_readme n, of "''LTS''" "''latest''" "Some []"]
    by (simp add: st av truthy_def)
  have m: "findFirmwareUrl (ok_response (listing [key_readme])) ''LTS'' ''u5'' ''latest''
        (Some ''-1.0.0.0'') = Inl (NoValidVersions ''u5'' [])"
    using findFirmwareUrl_reached [OF f relevant_readme n, of "''LTS''" "''latest''"
        "Some ''-1.0.0.0''"]
    by (simp add: st av truthy_def compareVersions_minus_one)
  show ?thesis
    using relevant_readme version_key_readme e compareVersions_minus_one m by (intro conjI)
qed

lemma keys_zero: "extractKeysFromXml (listing [key_zero]) = [key_zero]"
  by code_simp

lemma relevant_key_zero: "includes_str key_zero (''-'' @ ''u5'' @ ''-'')"
  by code_simp

lemma relevant_zero: "relevant ''u5'' (extractKeysFromXml (listing [key_zero])) = [key_zero]"
  by (simp only: keys_zero relevant_def filter.simps relevant_key_zero if_True)

lemma version_key_zero: "versionRegex key_zero = Some ''0.0.0.0''"
  by code_simp

lemma select_loop_latest_zero:
  "select_loop ''latest'' [key_zero] = \<lparr>selectedKey = None, latestVersion = ''0.0.0.0''\<rparr>"
  by (simp add: select_loop_def select_step_def version_key_zero compareVersions_same truthy_def)

lemma available_zero: "extractAvailableVersions [key_zero] = [''0.0.0.0'']"
  by (simp add: extractAvailableVersions_def version_step_def version_key_zero set_add_def)

lemma select_loop_latest_maximum:
  assumes "\<exists>k\<in>set keys. \<exists>w. versionRegex k = Some w \<and> compareVersions w ''0.0.0.0'' > 0"
  shows "\<exists>key w. selectedKey (select_loop ''latest'' keys) = Some key \<and> key \<in> set keys
           \<and> key \<noteq> [] \<and> versionRegex key = Some w
           \<and> compareVersions w (latestVersion (select_loop ''latest'' keys)) = 0
           \<and> (\<forall>k\<in>set keys. \<forall>w'. versionRegex k = Some w' \<longrightarrow> compareVersions w w' \<ge> 0)"
proof -
  let ?st = "select_loop ''latest'' keys"
  have inv: "latest_inv (set keys) ?st" by (rule latest_inv_select_loop)
  then have all: "\<forall>k\<in>set keys. \<forall>v. versionRegex k = Some v \<longrightarrow>
      compareVersions (latestVersion ?st) v \<ge> 0"
    unfolding latest_inv_def by blast
  obtain k0 w0 where k0: "k0 \<in> set keys" "versionRegex k0 = Some w0"
    "compareVersions w0 ''0.0.0.0'' > 0"
    using assms by blast
  have "compareVersions (latestVersion ?st) w0 \<ge> 0" using all k0 by blast
  then have "compareVersions (latestVersion ?st) ''0.0.0.0'' > 0"
    using k0(3) by (rule compareVersions_trans_gt2)
  then have "latestVersion ?st \<noteq> ''0.0.0.0''"
    using compareVersions_same [of "''0.0.0.0''"] by auto
  then obtain key w where key: "key \<in> set keys" "selectedKey ?st = Some key"
    "versionRegex key = Some w" "compareVersions w (latestVersion ?st) = 0"
    using inv unfolding latest_inv_def by blast
  have "compareVersions w w' \<ge> 0" if "k \<in> set keys" "versionRegex k = Some w'" for k w'
  proof -
    have "compareVersions (latestVersion ?st) w' \<ge> 0" using all that by blast
    moreover have "compareVersions w (latestVersion ?st) \<ge> 0" using key(4) by simp
    ultimately show ?thesis using compareVersions_trans_ge by blast
  qed
  then show ?thesis using key versionRegex_key_nonempty by blast
qed

text \<open>
  Claim C4, amended. For every listing in which some key left by the hardware-type
  filter carries a version that compares greater than \<open>0.0.0.0\<close>, a request of \<open>latest\<close>
  selects a filtered key whose version compares greater than or equal to the version
  of every filtered key, never a lower one; when a URL is returned it is the URL of
  that key, and it is returned whenever no current version is given.
\<close>

theorem latest_selects_maximum:
  assumes "fetch_text f = Inr xml" and "relevant t (extractKeysFromXml xml) = keys"
    and "\<exists>k\<in>set keys. \<exists>w. versionRegex k = Some w \<and> compareVersions w ''0.0.0.0'' > 0"
  shows "\<exists>key w. selectedKey (select_loop ''latest'' keys) = Some key \<and> key \<in> set keys
           \<and> versionRegex key = Some w
           \<and> (\<forall>k\<in>set keys. \<forall>w'. versionRegex k = Some w' \<longrightarrow> compareVersions w w' \<ge> 0)
           \<and> findFirmwareUrl f u t ''latest'' None = Inr (Some (firmware_host @ key))
           \<and> (findFirmwareUrl f u t ''latest'' cur = Inr None
              \<or> findFirmwareUrl f u t ''latest'' cur = Inr (Some (firmware_host @ key)))"
proof -
  have ne: "keys \<noteq> []" using assms(3) by auto
  obtain key w where key: "selectedKey (select_loop ''latest'' keys) = Some key"
    "key \<in> set keys" "key \<noteq> []" "versionRegex key = Some w"
    "\<forall>k\<in>set keys. \<forall>w'. versionRegex k = Some w' \<longrightarrow> compareVersions w w' \<ge> 0"
    using select_loop_latest_maximum [OF assms(3)] by blast
  have none: "findFirmwareUrl f u t ''latest'' None = Inr (Some (firmware_host @ key))"
    using findFirmwareUrl_reached [OF assms(1,2) ne, of u "''latest''" None] key(1,3)
    by (simp add: truthy_def)
  have any: "findFirmwareUrl f u t ''latest'' cur = Inr None
              \<or> findFirmwareUrl f u t ''latest'' cur = Inr (Some (firmware_host @ key))"
    using findFirmwareUrl_reached [OF assms(1,2) ne, of u "''latest''" cur] key(1,3)
    by (simp add: truthy_def)
  show ?thesis using key none any by blast
qed

theorem latest_selects_maximum_witness:
  "fetch_text (ok_response (listing [key_bin, key_dfu])) = Inr (listing [key_bin, key_dfu])
   \<and> relevant ''u5'' (extractKeysFromXml (listing [key_bin, key_dfu])) = [key_bin, key_dfu]
   \<and> (\<exists>k\<in>set [key_bin, key_dfu]. \<exists>w. versionRegex k = Some w
         \<and> compareVersions w ''0.0.0.0'' > 0)
   \<and> (\<exists>key w. selectedKey (select_loop ''latest'' [key_bin, key_dfu]) = Some key
         \<and> key \<in> set [key_bin, key_dfu] \<and> versionRegex key = Some w
         \<and> (\<forall>k\<in>set [key_bin, key_dfu]. \<forall>w'. versionRegex k = Some w'
               \<longrightarrow> compareVersions w w' \<ge> 0)
         \<and> findFirmwareUrl (ok_response (listing [key_bin, key_dfu])) ''LTS'' ''u5'' ''latest''
              None = Inr (Some (firmware_host @ key)))"
proof -
  have f: "fetch_text (ok_response (listing [key_bin, key_dfu])) = Inr (listing [key_bin, key_dfu])"
    by (rule fetch_text_ok_response)
  have ex: "\<exists>k\<in>set [key_bin, key_dfu]. \<exists>w. versionRegex k = Some w
         \<and> compareVersions w ''0.0.0.0'' > 0"
    using version_key_bin release_above_initial by simp
  have "\<exists>key w. selectedKey (select_loop ''latest'' [key_bin, key_dfu]) = Some key
         \<and> key \<in> set [key_bin, key_dfu] \<and> versionRegex key = Some w
         \<and> (\<forall>k\<in>set [key_bin, key_dfu]. \<forall>w'. versionRegex k = Some w'
               \<longrightarrow> compareVersions w w' \<ge> 0)
         \<and> findFirmwareUrl (ok_response (listing [key_bin, key_dfu])) ''LTS'' ''u5'' ''latest''
              None = Inr (Some (firmware_host @ key))"
    using latest_selects_maximum [OF f relevant_bin_dfu ex, of "''LTS''" None] by blast
  then show ?thesis using f relevant_bin_dfu ex by (intro conjI)
qed

text \<open>
  Claim C4 as stated fails where the only version among the filtered keys is
  \<open>0.0.0.0\<close>: the key carries a version, nothing is selected, and the request fails.
\<close>

theorem latest_selects_maximum_counterexample:
  "relevant ''u5'' (extractKeysFromXml (listing [key_zero])) = [key_zero]
   \<and> versionRegex key_zero = Some ''0.0.0.0''
   \<and> selectedKey (select_loop ''latest'' [key_zero]) = None
   \<and> findFirmwareUrl (ok_response (listing [key_zero])) ''LTS'' ''u5'' ''latest'' None
       = Inl (NoValidVersions ''u5'' [''0.0.0.0''])"
proof -
  have f: "fetch_text (ok_response (listing [key_zero])) = Inr (listing [key_zero])"
    by (rule fetch_text_ok_response)
  have n: "[key_zero] \<noteq> []" by simp
  have "findFirmwareUrl (ok_response (listing [key_zero])) ''LTS'' ''u5'' ''latest'' None
       = Inl (NoValidVersions ''u5'' [''0.0.0.0''])"
    using findFirmwareUrl_reached [OF f relevant_zero n, of "''LTS''" "''latest''" None]
    by (simp add: select_loop_latest_zero available_zero truthy_def)
  then show ?thesis
    using relevant_zero version_key_zero select_loop_latest_zero by simp
qed

text \<open>
  Claim C1. With \<open>latest\<close> requested and two filtered keys of equal, maximal version, one
  ending with \<open>.bin\<close> and one with \<open>.dfu\<close>, the claim is that the \<open>.bin\<close> key is selected
  whatever their order in the listing. The code keeps the key scanned first: with the
  \<open>.dfu\<close> key listed before the \<open>.bin\<close> key, the URL returned is that of the \<open>.dfu\<close>
  key; only with the \<open>.bin\<close> key listed first is it that of the \<open>.bin\<close> key.
\<close>

theorem latest_tie_keeps_first_key:
  "versionRegex key_dfu = Some ''6.2.5.16868'' \<and> versionRegex key_bin = Some ''6.2.5.16868''
   \<and> endsWith key_dfu ''.dfu'' \<and> endsWith key_bin ''.bin''
   \<and> relevant ''u5'' (extractKeysFromXml (listing [key_dfu, key_bin])) = [key_dfu, key_bin]
   \<and> findFirmwareUrl (ok_response (listing [key_dfu, key_bin])) ''LTS'' ''u5'' ''latest'' None
       = Inr (Some (firmware_host @ key_dfu))
   \<and> relevant ''u5'' (extractKeysFromXml (listing [key_bin, key_dfu])) = [key_bin, key_dfu]
   \<and> findFirmwareUrl (ok_response (listing [key_bin, key_dfu])) ''LTS'' ''u5'' ''latest'' None
       = Inr (Some (firmware_host @ key_bin))"
proof -
  have f1: "fetch_text (ok_response (listing [key_dfu, key_bin])) = Inr (listing [key_dfu, key_bin])"
    by (rule fetch_text_ok_response)
  have f2: "fetch_text (ok_response (listing [key_bin, key_dfu])) = Inr (listing [key_bin, key_dfu])"
    by (rule fetch_text_ok_response)
  have n1: "[key_dfu, key_bin] \<noteq> []" and n2: "[key_bin, key_dfu] \<noteq> []" by simp_all
  have r1: "findFirmwareUrl (ok_response (listing [key_dfu, key_bin])) ''LTS'' ''u5'' ''latest'' None
       = Inr (Some (firmware_host @ key_dfu))"
    using findFirmwareUrl_reached [OF f1 relevant_dfu_bin n1, of "''LTS''" "''latest''" None]
    by (simp add: select_loop_latest_dfu_bin truthy_def key_nonempty)
  have r2: "findFirmwareUrl (ok_response (listing [key_bin, key_dfu])) ''LTS'' ''u5'' ''latest'' None
       = Inr (Some (firmware_host @ key_bin))"
    using findFirmwareUrl_reached [OF f2 relevant_bin_dfu n2, of "''LTS''" "''latest''" None]
    by (simp add: select_loop_latest_bin_dfu truthy_def key_nonempty)
  show ?thesis
    using version_key_dfu version_key_bin key_dfu_endsWith(1) key_bin_endsWith(1)
      relevant_dfu_bin r1 relevant_bin_dfu r2
    by (intro conjI)
qed

end
